theory Spec2Isabelle
  imports Complex_Main "HOL-Library.Word" "HOL-Library.Log_Nat"
begin

unbundle bit_operations_syntax

section \<open>Payload extraction: \<^verbatim>\<open>get_payload\<close> of pcap\_reader.h\<close>

text \<open>
  \<^verbatim>\<open>get_payload(packet, header)\<close> receives a pointer and the capture header. The model
  takes for \<open>packet\<close> the list of the bytes that can be read through that pointer (the
  buffer of the capture library: the captured bytes first, possibly followed by more
  bytes), and returns the offset \<open>p\<close> of the returned pointer \<open>packet + p\<close>.
  The source reads header fields through structs aliased onto the buffer and never
  compares an index with a length before a read. A read at an index the buffer does not
  have is undefined behaviour in C++; the model makes it the result
  \<open>Inl (OutOfBounds i)\<close>, where \<open>i\<close> is the index of the byte that was asked for.
  Offsets are of type \<^verbatim>\<open>size_t\<close>; they are modelled by \<open>nat\<close>: a header is only
  skipped after one of its bytes was read inside the buffer, so that an offset never
  exceeds the length of the buffer by more than one header.
\<close>

type_synonym byte = "8 word"

record pcap_pkthdr =
  ts :: "int \<times> int"
  caplen :: "32 word"
  len :: "32 word"

datatype fault = OutOfBounds nat

definition read_u8 :: "byte list \<Rightarrow> nat \<Rightarrow> fault + byte" where
  "read_u8 packet i =
     (if i < length packet then Inr (packet ! i) else Inl (OutOfBounds i))"

text \<open>A 16-bit field in network byte order, as \<^verbatim>\<open>ntohs(field)\<close> reads it.\<close>

definition read_ntohs :: "byte list \<Rightarrow> nat \<Rightarrow> fault + nat" where
  "read_ntohs packet i =
     (case read_u8 packet i of
        Inl e \<Rightarrow> Inl e
      | Inr hi \<Rightarrow>
          (case read_u8 packet (i + 1) of
             Inl e \<Rightarrow> Inl e
           | Inr lo \<Rightarrow> Inr (unat hi * 256 + unat lo)))"

subsection \<open>Constants of the system headers\<close>

text \<open>
  The values of \<^verbatim>\<open>net/ethernet.h\<close>, \<^verbatim>\<open>netinet/in.h\<close>, \<^verbatim>\<open>netinet/ip.h\<close>,
  \<^verbatim>\<open>netinet/ip6.h\<close>, \<^verbatim>\<open>netinet/tcp.h\<close>, \<^verbatim>\<open>netinet/udp.h\<close>,
  \<^verbatim>\<open>netinet/ip_icmp.h\<close> and \<^verbatim>\<open>netinet/icmp6.h\<close>: protocol numbers, struct sizes,
  and the position of each field the source reads inside its struct.
\<close>

definition ETHERTYPE_VLAN :: nat where "ETHERTYPE_VLAN = 0x8100"
definition ETHERTYPE_IP :: nat where "ETHERTYPE_IP = 0x0800"
definition ETHERTYPE_IPV6 :: nat where "ETHERTYPE_IPV6 = 0x86dd"

definition IPPROTO_ICMP :: nat where "IPPROTO_ICMP = 1"
definition IPPROTO_IPIP :: nat where "IPPROTO_IPIP = 4"
definition IPPROTO_TCP :: nat where "IPPROTO_TCP = 6"
definition IPPROTO_UDP :: nat where "IPPROTO_UDP = 17"
definition IPPROTO_IPV6 :: nat where "IPPROTO_IPV6 = 41"
definition IPPROTO_FRAGMENT :: nat where "IPPROTO_FRAGMENT = 44"
definition IPPROTO_ESP :: nat where "IPPROTO_ESP = 50"
definition IPPROTO_ICMPV6 :: nat where "IPPROTO_ICMPV6 = 58"

definition sizeof_ether_header :: nat where "sizeof_ether_header = 14"
definition sizeof_vlan_ethhdr :: nat where "sizeof_vlan_ethhdr = 18"
definition sizeof_ip :: nat where "sizeof_ip = 20"
definition sizeof_ip6_hdr :: nat where "sizeof_ip6_hdr = 40"
definition sizeof_udphdr :: nat where "sizeof_udphdr = 8"
definition sizeof_icmphdr :: nat where "sizeof_icmphdr = 8"
definition sizeof_icmp6_hdr :: nat where "sizeof_icmp6_hdr = 8"
definition sizeof_ip6_frag :: nat where "sizeof_ip6_frag = 8"

definition off_ether_type :: nat where "off_ether_type = 12"
definition off_vlan_ether_type :: nat where "off_vlan_ether_type = 16"
definition off_ip_p :: nat where "off_ip_p = 9"
definition off_ip6_nxt :: nat where "off_ip6_nxt = 6"
definition off_th_off :: nat where "off_th_off = 12"
definition off_ip6f_nxt :: nat where "off_ip6f_nxt = 0"

lemmas header_consts =
  ETHERTYPE_VLAN_def ETHERTYPE_IP_def ETHERTYPE_IPV6_def
  IPPROTO_ICMP_def IPPROTO_IPIP_def IPPROTO_TCP_def IPPROTO_UDP_def
  IPPROTO_IPV6_def IPPROTO_FRAGMENT_def IPPROTO_ESP_def IPPROTO_ICMPV6_def
  sizeof_ether_header_def sizeof_vlan_ethhdr_def sizeof_ip_def sizeof_ip6_hdr_def
  sizeof_udphdr_def sizeof_icmphdr_def sizeof_icmp6_hdr_def sizeof_ip6_frag_def
  off_ether_type_def off_vlan_ether_type_def off_ip_p_def off_ip6_nxt_def
  off_th_off_def off_ip6f_nxt_def

text \<open>\<^verbatim>\<open>th_off\<close> is the upper half of byte 12 of the TCP header.\<close>

definition th_off :: "byte \<Rightarrow> nat" where
  "th_off b = unat (drop_bit 4 b)"

subsection \<open>The link layer and the network layer (lines 84 to 112)\<close>

text \<open>The offset behind the link-layer header, and the type of what follows.\<close>

definition link_layer :: "byte list \<Rightarrow> fault + nat \<times> nat" where
  "link_layer packet =
     (case read_ntohs packet off_ether_type of
        Inl e \<Rightarrow> Inl e
      | Inr ether_type \<Rightarrow>
          if ETHERTYPE_VLAN = ether_type then
            (case read_ntohs packet off_vlan_ether_type of
               Inl e \<Rightarrow> Inl e
             | Inr vlan_type \<Rightarrow> Inr (sizeof_vlan_ethhdr, vlan_type))
          else Inr (sizeof_ether_header, ether_type))"

text \<open>
  \<open>Inr None\<close> is the early \<^verbatim>\<open>return packet_end\<close>; \<open>Inr (Some (offset, l4_proto))\<close> is
  the state in which the loop is entered.
\<close>

definition network_layer :: "byte list \<Rightarrow> nat \<Rightarrow> nat \<Rightarrow> fault + (nat \<times> nat) option" where
  "network_layer packet offset ether_type =
     (if ETHERTYPE_IP = ether_type then
        (case read_u8 packet (offset + off_ip_p) of
           Inl e \<Rightarrow> Inl e
         | Inr ip_p \<Rightarrow> Inr (Some (offset + sizeof_ip, unat ip_p)))
      else if ETHERTYPE_IPV6 = ether_type then
        (case read_u8 packet (offset + off_ip6_nxt) of
           Inl e \<Rightarrow> Inl e
         | Inr ip6_nxt \<Rightarrow> Inr (Some (offset + sizeof_ip6_hdr, unat ip6_nxt)))
      else Inr None)"

subsection \<open>The header-skipping loop (lines 114 to 163)\<close>

text \<open>
  One run of the body of the \<^verbatim>\<open>do ... while (cond)\<close> loop:
  \<open>Continue offset l4_proto\<close> when the body leaves \<open>cond\<close> true,
  \<open>Break offset\<close> when it leaves \<open>cond\<close> false,
  \<open>Unsupported\<close> for the \<^verbatim>\<open>return packet + header->caplen\<close> of the last branch.
\<close>

datatype step = Continue nat nat | Break nat | Unsupported | Fault fault

definition loop_body :: "byte list \<Rightarrow> nat \<Rightarrow> nat \<Rightarrow> step" where
  "loop_body packet offset l4_proto =
     (if IPPROTO_TCP = l4_proto then
        (case read_u8 packet (offset + off_th_off) of
           Inl e \<Rightarrow> Fault e
         | Inr b \<Rightarrow> Break (offset + th_off b * 4))
      else if IPPROTO_UDP = l4_proto then Break (offset + sizeof_udphdr)
      else if IPPROTO_IPIP = l4_proto then
        (case read_u8 packet (offset + off_ip_p) of
           Inl e \<Rightarrow> Fault e
         | Inr ip_p \<Rightarrow> Continue (offset + sizeof_ip) (unat ip_p))
      else if IPPROTO_ESP = l4_proto then Break (offset + 8)
      else if IPPROTO_ICMP = l4_proto then Break (offset + sizeof_icmphdr)
      else if IPPROTO_ICMPV6 = l4_proto then Break (offset + sizeof_icmp6_hdr)
      else if IPPROTO_FRAGMENT = l4_proto then
        (case read_u8 packet (offset + off_ip6f_nxt) of
           Inl e \<Rightarrow> Fault e
         | Inr ip6f_nxt \<Rightarrow> Continue (offset + sizeof_ip6_frag) (unat ip6f_nxt))
      else if IPPROTO_IPV6 = l4_proto then
        (case read_u8 packet (offset + off_ip6_nxt) of
           Inl e \<Rightarrow> Fault e
         | Inr ip6_nxt \<Rightarrow> Break (offset + sizeof_ip6_hdr))
      else Unsupported)"

lemma loop_body_Continue:
  assumes "loop_body packet offset l4_proto = Continue offset' l4_proto'"
  shows "offset < length packet"
    and "offset' = offset + 20 \<or> offset' = offset + 8"
  using assms
  by (auto simp: loop_body_def read_u8_def header_consts split: if_splits)

text \<open>
  The loop: \<open>Inr (Some offset)\<close> when it is left with \<open>cond\<close> false, \<open>Inr None\<close> when the
  last branch returns from inside it.
\<close>

function header_loop :: "byte list \<Rightarrow> nat \<Rightarrow> nat \<Rightarrow> fault + nat option" where
  "header_loop packet offset l4_proto =
     (case loop_body packet offset l4_proto of
        Continue offset' l4_proto' \<Rightarrow> header_loop packet offset' l4_proto'
      | Break offset' \<Rightarrow> Inr (Some offset')
      | Unsupported \<Rightarrow> Inr None
      | Fault e \<Rightarrow> Inl e)"
  by pat_completeness auto
termination
proof (relation "measure (\<lambda>(packet, offset, l4_proto). length packet - offset)")
  show "wf (measure (\<lambda>(packet, offset, l4_proto). length packet - offset))"
    by simp
next
  fix packet :: "byte list" and offset l4_proto offset' l4_proto' :: nat
  assume "loop_body packet offset l4_proto = Continue offset' l4_proto'"
  from loop_body_Continue [OF this]
  show "((packet, offset', l4_proto'), (packet, offset, l4_proto))
          \<in> measure (\<lambda>(packet, offset, l4_proto). length packet - offset)"
    by auto
qed

declare header_loop.simps [simp del]

subsection \<open>The whole function (lines 80 to 172)\<close>

text \<open>
  Everything before the comparison with \<^verbatim>\<open>header->caplen\<close>: \<open>Inr (Some offset)\<close> is
  the offset accumulated when the loop is left, \<open>Inr None\<close> stands for the two returns
  taken on a network-layer type or a protocol number the source does not know.
\<close>

definition walk_headers :: "byte list \<Rightarrow> fault + nat option" where
  "walk_headers packet =
     (case link_layer packet of
        Inl e \<Rightarrow> Inl e
      | Inr (offset, ether_type) \<Rightarrow>
          (case network_layer packet offset ether_type of
             Inl e \<Rightarrow> Inl e
           | Inr None \<Rightarrow> Inr None
           | Inr (Some (offset', l4_proto)) \<Rightarrow> header_loop packet offset' l4_proto))"

definition get_payload :: "byte list \<Rightarrow> pcap_pkthdr \<Rightarrow> fault + nat" where
  "get_payload packet header =
     (case walk_headers packet of
        Inl e \<Rightarrow> Inl e
      | Inr None \<Rightarrow> Inr (unat (caplen header))
      | Inr (Some offset) \<Rightarrow>
          if offset > unat (caplen header) then Inr (unat (caplen header))
          else Inr offset)"

subsection \<open>The loop with a bound on the number of iterations\<close>

text \<open>
  The same loop, given up with \<open>None\<close> after \<open>n\<close> runs of its body. It is used to state
  how many runs the loop of the source can take.
\<close>

fun header_loop_fuel :: "nat \<Rightarrow> byte list \<Rightarrow> nat \<Rightarrow> nat \<Rightarrow> (fault + nat option) option" where
  "header_loop_fuel 0 packet offset l4_proto = None"
| "header_loop_fuel (Suc n) packet offset l4_proto =
     (case loop_body packet offset l4_proto of
        Continue offset' l4_proto' \<Rightarrow> header_loop_fuel n packet offset' l4_proto'
      | Break offset' \<Rightarrow> Some (Inr (Some offset'))
      | Unsupported \<Rightarrow> Some (Inr None)
      | Fault e \<Rightarrow> Some (Inl e))"

section \<open>Properties of payload extraction\<close>

lemmas get_payload_eval =
  get_payload_def walk_headers_def link_layer_def network_layer_def header_loop.simps
  loop_body_def read_ntohs_def read_u8_def header_consts nth_append th_off_def

subsection \<open>Where a read can fail\<close>

lemma read_u8_fault: "read_u8 packet i = Inl (OutOfBounds j) \<Longrightarrow> length packet \<le> j"
  by (auto simp: read_u8_def split: if_splits)

lemma read_ntohs_fault: "read_ntohs packet i = Inl (OutOfBounds j) \<Longrightarrow> length packet \<le> j"
  by (auto simp: read_ntohs_def split: sum.splits dest: read_u8_fault)

lemma link_layer_fault: "link_layer packet = Inl (OutOfBounds j) \<Longrightarrow> length packet \<le> j"
  by (auto simp: link_layer_def split: sum.splits if_splits dest: read_ntohs_fault)

lemma network_layer_fault:
  "network_layer packet offset ether_type = Inl (OutOfBounds j) \<Longrightarrow> length packet \<le> j"
  by (auto simp: network_layer_def split: sum.splits if_splits dest: read_u8_fault)

lemma loop_body_fault:
  "loop_body packet offset l4_proto = Fault (OutOfBounds j) \<Longrightarrow> length packet \<le> j"
  by (auto simp: loop_body_def split: sum.splits if_splits dest: read_u8_fault)

lemma header_loop_fault:
  "header_loop packet offset l4_proto = Inl (OutOfBounds j) \<Longrightarrow> length packet \<le> j"
proof (induction packet offset l4_proto rule: header_loop.induct)
  case (1 packet offset l4_proto)
  then show ?case
    by (cases "loop_body packet offset l4_proto")
      (auto simp: header_loop.simps [of packet offset] dest: loop_body_fault)
qed

lemma walk_headers_fault:
  "walk_headers packet = Inl (OutOfBounds j) \<Longrightarrow> length packet \<le> j"
  by (auto simp: walk_headers_def split: sum.splits option.splits prod.splits
      dest: link_layer_fault network_layer_fault header_loop_fault)

subsection \<open>The returned pointer\<close>

text \<open>
  C1, as stated, fails: a frame cut inside a header makes \<open>get_payload\<close> read behind
  the captured bytes before it compares anything with \<open>caplen\<close>. Here the buffer holds the
  14 bytes of an Ethernet header announcing IPv4 and nothing else; the protocol field of
  the missing IPv4 header is read at index 23.
\<close>

theorem get_payload_truncated_ip_header:
  "get_payload (replicate 12 0 @ [0x08, 0x00]) \<lparr>ts = (0, 0), caplen = 14, len = 60\<rparr>
     = Inl (OutOfBounds 23)"
  by (simp add: get_payload_eval)

text \<open>
  C1, amended. \<open>get_payload\<close> has no exception; for every buffer and every capture header,
  either it returns an offset \<open>p\<close> with \<open>p \<le> caplen\<close>, or one of its header reads was
  at an index \<open>i\<close> that the buffer does not have. When it returns, the offset is exactly
  \<open>caplen\<close> (the empty payload at the end of the captured bytes) if the network-layer type
  or a protocol number is not supported, or if the offset accumulated by the loop
  exceeds \<open>caplen\<close>; otherwise it is the accumulated offset.
\<close>

theorem get_payload_within_caplen:
  "(\<exists>p. get_payload packet header = Inr p \<and> p \<le> unat (caplen header) \<and>
        (walk_headers packet = Inr None \<longrightarrow> p = unat (caplen header)) \<and>
        (\<forall>offset. walk_headers packet = Inr (Some offset) \<longrightarrow>
           p = (if offset > unat (caplen header) then unat (caplen header) else offset)))
   \<or> (\<exists>i. get_payload packet header = Inl (OutOfBounds i) \<and> length packet \<le> i)"
proof (cases "walk_headers packet")
  case (Inl e)
  obtain i where e: "e = OutOfBounds i"
    by (cases e)
  from Inl e have "length packet \<le> i"
    by (auto dest: walk_headers_fault)
  with Inl e show ?thesis
    by (simp add: get_payload_def)
next
  case (Inr r)
  then show ?thesis
    by (cases r) (simp_all add: get_payload_def)
qed

text \<open>
  The frame of the witness: Ethernet with a VLAN tag, IPv4, a TCP header of 20 bytes
  and 8 bytes of payload, 66 bytes in all. Captured whole, the payload starts at 58 and
  has 8 bytes; captured up to byte 50, the payload is empty.
\<close>

theorem get_payload_within_caplen_witness:
  "get_payload
     (replicate 12 0 @ [0x81, 0x00, 0, 0, 0x08, 0x00]
        @ [0x45] @ replicate 8 0 @ [6] @ replicate 10 0
        @ replicate 12 0 @ [0x50] @ replicate 7 0
        @ [1, 2, 3, 4, 5, 6, 7, 8])
     \<lparr>ts = (0, 0), caplen = 66, len = 66\<rparr> = Inr 58
   \<and> get_payload
     (replicate 12 0 @ [0x81, 0x00, 0, 0, 0x08, 0x00]
        @ [0x45] @ replicate 8 0 @ [6] @ replicate 10 0
        @ replicate 12 0 @ [0x50] @ replicate 7 0
        @ [1, 2, 3, 4, 5, 6, 7, 8])
     \<lparr>ts = (0, 0), caplen = 50, len = 66\<rparr> = Inr 50"
  using
    get_payload_within_caplen [of
     "replicate 12 0 @ [0x81, 0x00, 0, 0, 0x08, 0x00]
        @ [0x45] @ replicate 8 0 @ [6] @ replicate 10 0
        @ replicate 12 0 @ [0x50] @ replicate 7 0
        @ [1, 2, 3, 4, 5, 6, 7, 8]"
     "\<lparr>ts = (0, 0), caplen = 66, len = 66\<rparr>"]
    get_payload_within_caplen [of
     "replicate 12 0 @ [0x81, 0x00, 0, 0, 0x08, 0x00]
        @ [0x45] @ replicate 8 0 @ [6] @ replicate 10 0
        @ replicate 12 0 @ [0x50] @ replicate 7 0
        @ [1, 2, 3, 4, 5, 6, 7, 8]"
     "\<lparr>ts = (0, 0), caplen = 50, len = 66\<rparr>"]
  by (simp add: get_payload_eval)

subsection \<open>What is compared with the captured length\<close>

text \<open>
  C2, as stated, fails: no read is preceded by a comparison with \<open>caplen\<close>. The first
  buffer below holds exactly the 44 captured bytes of a frame cut after 10 bytes of its
  TCP header; the data offset of that header is read at index 46, outside the buffer.
  The other two buffers hold 47 bytes, of which 40 are captured (the frame is cut after
  6 bytes of its TCP header); they differ in byte 46 only, which is not a captured byte,
  and the results differ: the data offset was read there.
\<close>

theorem tcp_data_offset_read_unchecked:
  "length (replicate 12 0 @ [0x08, 0x00] @ [0x45] @ replicate 8 0 @ [6] @ replicate 10 0
             @ replicate 10 (0 :: byte)) = unat (caplen \<lparr>ts = (0, 0), caplen = 44, len = 60\<rparr>)
   \<and> get_payload
        (replicate 12 0 @ [0x08, 0x00] @ [0x45] @ replicate 8 0 @ [6] @ replicate 10 0
           @ replicate 10 0)
        \<lparr>ts = (0, 0), caplen = 44, len = 60\<rparr> = Inl (OutOfBounds 46)
   \<and> get_payload
        (replicate 12 0 @ [0x08, 0x00] @ [0x45] @ replicate 8 0 @ [6] @ replicate 10 0
           @ replicate 6 0 @ replicate 6 0 @ [0x00])
        \<lparr>ts = (0, 0), caplen = 40, len = 60\<rparr> = Inr 34
   \<and> get_payload
        (replicate 12 0 @ [0x08, 0x00] @ [0x45] @ replicate 8 0 @ [6] @ replicate 10 0
           @ replicate 6 0 @ replicate 6 0 @ [0x50])
        \<lparr>ts = (0, 0), caplen = 40, len = 60\<rparr> = Inr 40"
  by (simp add: get_payload_eval)

text \<open>
  C2, amended. The captured length bounds the result only: it is compared once, with
  the offset accumulated when the loop is left, and the smaller of the two is returned.
  The walk over the headers, with all its reads, does not look at it
  (\<open>walk_headers\<close> has the buffer as its only argument): whether one of the reads leaves
  the buffer, and at which index, is the same for every value of \<open>caplen\<close>.
\<close>

theorem caplen_bounds_final_offset_only:
  "get_payload packet header =
     (case walk_headers packet of
        Inl e \<Rightarrow> Inl e
      | Inr None \<Rightarrow> Inr (unat (caplen header))
      | Inr (Some offset) \<Rightarrow> Inr (min offset (unat (caplen header))))
   \<and> (get_payload packet header = Inl e) = (get_payload packet (header\<lparr>caplen := c\<rparr>) = Inl e)"
  by (simp add: get_payload_def min_def split: sum.split option.split)

subsection \<open>IPv6 in IPv6\<close>

text \<open>
  C3. The branch for \<^verbatim>\<open>IPPROTO_IPV6\<close> adds the size of the IPv6 header and assigns the
  next-header value, but it does not set \<open>cond\<close>, unlike the branches for
  \<^verbatim>\<open>IPPROTO_IPIP\<close> and \<^verbatim>\<open>IPPROTO_FRAGMENT\<close>: a run of the body in that branch never
  continues the loop. For the frame below (Ethernet, IPv6 with next header 41, an inner
  IPv6 header with next header 17, a UDP header of 8 bytes, 4 bytes of payload) the
  result is 94, the start of the UDP header, and not 102, the start of the payload.
\<close>

theorem ipv6_in_ipv6_leaves_loop:
  "loop_body packet offset IPPROTO_IPV6 \<noteq> Continue offset' l4_proto'
   \<and> get_payload
        (replicate 12 0 @ [0x86, 0xdd]
           @ [0x60] @ replicate 5 0 @ [41] @ replicate 33 0
           @ [0x60] @ replicate 5 0 @ [17] @ replicate 33 0
           @ replicate 8 0
           @ [1, 2, 3, 4])
        \<lparr>ts = (0, 0), caplen = 106, len = 106\<rparr> = Inr 94"
  by (simp add: get_payload_eval split: sum.split)

subsection \<open>Termination of the loop\<close>

lemma loop_body_Continue_branch:
  assumes "loop_body packet offset l4_proto = Continue offset' l4_proto'"
  shows "(l4_proto = IPPROTO_IPIP \<and> offset' = offset + sizeof_ip)
       \<or> (l4_proto = IPPROTO_FRAGMENT \<and> offset' = offset + sizeof_ip6_frag)"
  using assms
  by (auto simp: loop_body_def read_u8_def header_consts split: if_splits sum.splits)

lemma header_loop_fuel_enough:
  "length packet - offset < n \<Longrightarrow>
     header_loop_fuel n packet offset l4_proto = Some (header_loop packet offset l4_proto)"
proof (induction packet offset l4_proto arbitrary: n rule: header_loop.induct)
  case (1 packet offset l4_proto)
  from "1.prems" obtain m where n: "n = Suc m"
    by (cases n) auto
  show ?case
  proof (cases "loop_body packet offset l4_proto")
    case (Continue offset' l4_proto')
    from loop_body_Continue [OF Continue] "1.prems" n
    have "length packet - offset' < m"
      by auto
    from "1.IH" [OF Continue this] Continue n show ?thesis
      by (simp add: header_loop.simps [of packet offset])
  qed (simp_all add: n header_loop.simps [of packet offset])
qed

text \<open>
  C10. A run of the loop body continues the loop only in the branches for IP in IP and
  for the IPv6 fragment header, and then the offset has grown by the size of that header
  (20 or 8), after a byte of the header was read inside the buffer. So the loop ends
  after at most \<open>length packet - offset + 1\<close> runs of its body, however deep the
  nesting: the loop cut after that many runs gives the result of the loop of
  \<open>get_payload\<close> (a return, or a read that leaves the buffer).
\<close>

theorem header_loop_terminates:
  "(\<forall>offset' l4_proto'. loop_body packet offset l4_proto = Continue offset' l4_proto' \<longrightarrow>
       offset < offset' \<and>
       ((l4_proto = IPPROTO_IPIP \<and> offset' = offset + sizeof_ip)
        \<or> (l4_proto = IPPROTO_FRAGMENT \<and> offset' = offset + sizeof_ip6_frag)))
   \<and> header_loop_fuel (Suc (length packet - offset)) packet offset l4_proto
       = Some (header_loop packet offset l4_proto)"
proof (intro conjI allI impI)
  fix offset' l4_proto'
  assume c: "loop_body packet offset l4_proto = Continue offset' l4_proto'"
  from loop_body_Continue(2) [OF c] show "offset < offset'"
    by auto
  from loop_body_Continue_branch [OF c]
  show "(l4_proto = IPPROTO_IPIP \<and> offset' = offset + sizeof_ip)
        \<or> (l4_proto = IPPROTO_FRAGMENT \<and> offset' = offset + sizeof_ip6_frag)" .
next
  show "header_loop_fuel (Suc (length packet - offset)) packet offset l4_proto
       = Some (header_loop packet offset l4_proto)"
    by (rule header_loop_fuel_enough) simp
qed

text \<open>
  The witness: two IPv4 headers nested by IP in IP (protocol 4), then UDP. The first run
  of the body, at offset 34, continues at offset 54; the loop ends at offset 62.
\<close>

theorem header_loop_terminates_witness:
  "loop_body
     (replicate 12 0 @ [0x08, 0x00]
        @ [0x45] @ replicate 8 0 @ [4] @ replicate 10 0
        @ [0x45] @ replicate 8 0 @ [17] @ replicate 10 0
        @ replicate 8 0 @ [1, 2, 3, 4]) 34 4 = Continue 54 17
   \<and> (34 :: nat) < 54
   \<and> header_loop_fuel 33
       (replicate 12 0 @ [0x08, 0x00]
        @ [0x45] @ replicate 8 0 @ [4] @ replicate 10 0
        @ [0x45] @ replicate 8 0 @ [17] @ replicate 10 0
        @ replicate 8 0 @ [1, 2, 3, 4]) 34 4 = Some (Inr (Some 62))"
  using header_loop_terminates [of
     "replicate 12 0 @ [0x08, 0x00]
        @ [0x45] @ replicate 8 0 @ [4] @ replicate 10 0
        @ [0x45] @ replicate 8 0 @ [17] @ replicate 10 0
        @ replicate 8 0 @ [1, 2, 3, 4]" 34 4]
  by (simp add: get_payload_eval)

subsection \<open>What the result depends on\<close>

text \<open>
  A buffer cut to its first \<open>n\<close> bytes: what is read inside the cut buffer is read in
  the whole buffer, so a result that the cut buffer gives is the result that the whole
  buffer gives.
\<close>

lemma read_u8_take:
  "read_u8 (take n packet) i = (if i < n then read_u8 packet i else Inl (OutOfBounds i))"
  by (simp add: read_u8_def)

lemma read_ntohs_extend:
  "read_ntohs (take n packet) i = Inr v \<Longrightarrow> read_ntohs packet i = Inr v"
  by (auto simp: read_ntohs_def read_u8_take split: sum.splits if_splits)

lemma link_layer_extend:
  assumes "link_layer (take n packet) = Inr r"
  shows "link_layer packet = Inr r"
proof -
  from assms obtain t where t: "read_ntohs (take n packet) off_ether_type = Inr t"
    by (auto simp: link_layer_def split: sum.splits)
  note t' = read_ntohs_extend [OF t]
  show ?thesis
  proof (cases "ETHERTYPE_VLAN = t")
    case True
    with assms t obtain v where v: "read_ntohs (take n packet) off_vlan_ether_type = Inr v"
      and r: "r = (sizeof_vlan_ethhdr, v)"
      by (auto simp: link_layer_def split: sum.splits)
    from read_ntohs_extend [OF v] t' True r show ?thesis
      by (simp add: link_layer_def)
  next
    case False
    with assms t t' show ?thesis
      by (simp add: link_layer_def)
  qed
qed

lemma network_layer_extend:
  "network_layer (take n packet) offset ether_type = Inr r \<Longrightarrow>
     network_layer packet offset ether_type = Inr r"
  by (auto simp: network_layer_def read_u8_take split: sum.splits if_splits)

lemma loop_body_extend:
  assumes s: "loop_body (take n packet) offset l4_proto = s" and nf: "\<forall>e. s \<noteq> Fault e"
  shows "loop_body packet offset l4_proto = s"
proof (cases "l4_proto = IPPROTO_TCP \<or> l4_proto = IPPROTO_IPIP
    \<or> l4_proto = IPPROTO_FRAGMENT \<or> l4_proto = IPPROTO_IPV6")
  case False
  with s show ?thesis
    by (auto simp: loop_body_def)
next
  case True
  then show ?thesis
  proof (elim disjE)
    assume "l4_proto = IPPROTO_TCP"
    with s nf show ?thesis
      by (auto simp: loop_body_def read_u8_take header_consts split: if_splits sum.splits)
  next
    assume "l4_proto = IPPROTO_IPIP"
    with s nf show ?thesis
      by (auto simp: loop_body_def read_u8_take header_consts split: if_splits sum.splits)
  next
    assume "l4_proto = IPPROTO_FRAGMENT"
    with s nf show ?thesis
      by (auto simp: loop_body_def read_u8_take header_consts split: if_splits sum.splits)
  next
    assume "l4_proto = IPPROTO_IPV6"
    with s nf show ?thesis
      by (auto simp: loop_body_def read_u8_take header_consts split: if_splits sum.splits)
  qed
qed

lemma header_loop_extend:
  "header_loop (take n packet) offset l4_proto = Inr r \<Longrightarrow>
     header_loop packet offset l4_proto = Inr r"
proof (induction "take n packet" offset l4_proto rule: header_loop.induct)
  case (1 offset l4_proto)
  show ?case
  proof (cases "loop_body (take n packet) offset l4_proto")
    case (Continue offset' l4_proto')
    with loop_body_extend [OF Continue]
    have "loop_body packet offset l4_proto = Continue offset' l4_proto'"
      by simp
    with "1.hyps" [OF Continue] "1.prems" Continue show ?thesis
      by (simp add: header_loop.simps [of _ offset])
  next
    case (Break offset')
    with loop_body_extend [OF Break] have "loop_body packet offset l4_proto = Break offset'"
      by simp
    with "1.prems" Break show ?thesis
      by (simp add: header_loop.simps [of _ offset])
  next
    case Unsupported
    with loop_body_extend [OF Unsupported] have "loop_body packet offset l4_proto = Unsupported"
      by simp
    with "1.prems" Unsupported show ?thesis
      by (simp add: header_loop.simps [of _ offset])
  next
    case (Fault e)
    with "1.prems" show ?thesis
      by (simp add: header_loop.simps [of _ offset])
  qed
qed

lemma walk_headers_extend:
  assumes "walk_headers (take n packet) = Inr r"
  shows "walk_headers packet = Inr r"
proof -
  from assms obtain offset ether_type where
    l: "link_layer (take n packet) = Inr (offset, ether_type)"
    by (auto simp: walk_headers_def split: sum.splits)
  note l' = link_layer_extend [OF l]
  from assms l obtain x where x: "network_layer (take n packet) offset ether_type = Inr x"
    by (auto simp: walk_headers_def split: sum.splits)
  note x' = network_layer_extend [OF x]
  show ?thesis
  proof (cases x)
    case None
    with assms l x l' x' show ?thesis
      by (simp add: walk_headers_def)
  next
    case (Some s)
    obtain offset' l4_proto where s: "s = (offset', l4_proto)"
      by (cases s)
    from assms l x Some s have "header_loop (take n packet) offset' l4_proto = Inr r"
      by (simp add: walk_headers_def)
    from header_loop_extend [OF this] l' x' Some s show ?thesis
      by (simp add: walk_headers_def)
  qed
qed

lemma get_payload_extend:
  assumes "get_payload (take n packet) header = Inr p"
  shows "get_payload packet header = Inr p"
proof -
  from assms obtain r where r: "walk_headers (take n packet) = Inr r"
    by (auto simp: get_payload_def split: sum.splits)
  from walk_headers_extend [OF r] assms r show ?thesis
    by (simp add: get_payload_def)
qed

text \<open>
  C9, as stated, fails: the result does not depend on the captured bytes and the
  captured length only. The two buffers below start with the same 60 captured bytes
  (Ethernet, IPv6 with next header 6, and the first 6 bytes of a TCP header) and come
  with the same capture header; they differ in byte 66, which is not captured and
  where the data offset of the TCP header is read. The results are 54 and 60.
\<close>

theorem get_payload_reads_beyond_caplen:
  "length (replicate 12 0 @ [0x86, 0xdd] @ [0x60] @ replicate 5 0 @ [6] @ replicate 33 0
             @ replicate 6 (0 :: byte)) = unat (caplen \<lparr>ts = (0, 0), caplen = 60, len = 74\<rparr>)
   \<and> get_payload
        ((replicate 12 0 @ [0x86, 0xdd] @ [0x60] @ replicate 5 0 @ [6] @ replicate 33 0
            @ replicate 6 0) @ replicate 6 0 @ [0x00])
        \<lparr>ts = (0, 0), caplen = 60, len = 74\<rparr> = Inr 54
   \<and> get_payload
        ((replicate 12 0 @ [0x86, 0xdd] @ [0x60] @ replicate 5 0 @ [6] @ replicate 33 0
            @ replicate 6 0) @ replicate 6 0 @ [0x50])
        \<lparr>ts = (0, 0), caplen = 60, len = 74\<rparr> = Inr 60"
  by (simp add: get_payload_eval)

text \<open>
  C9, amended. The original length is never used: for one buffer and one captured
  length the result is the same whatever the original length (and the time stamp) is.
  And when the header walk succeeds on the captured bytes alone, all its reads being
  inside them, the result depends on the captured bytes and the captured length
  only: every buffer that starts with these captured bytes gives this result. (When a
  read falls behind the captured bytes, the result can depend on what is there, as
  shown above.)
\<close>

theorem get_payload_depends_on:
  "get_payload packet \<lparr>ts = t1, caplen = c, len = n1\<rparr>
     = get_payload packet \<lparr>ts = t2, caplen = c, len = n2\<rparr>
   \<and> (take (unat c) packet' = take (unat c) packet
        \<and> get_payload (take (unat c) packet) \<lparr>ts = t1, caplen = c, len = n1\<rparr> = Inr p \<longrightarrow>
      get_payload packet \<lparr>ts = t1, caplen = c, len = n1\<rparr> = Inr p
      \<and> get_payload packet' \<lparr>ts = t2, caplen = c, len = n2\<rparr> = Inr p)"
proof (intro conjI impI)
  show e: "get_payload packet \<lparr>ts = t1, caplen = c, len = n1\<rparr>
     = get_payload packet \<lparr>ts = t2, caplen = c, len = n2\<rparr>" for packet
    by (simp add: get_payload_def split: sum.split option.split)
  assume a: "take (unat c) packet' = take (unat c) packet
        \<and> get_payload (take (unat c) packet) \<lparr>ts = t1, caplen = c, len = n1\<rparr> = Inr p"
  then have t: "take (unat c) packet' = take (unat c) packet"
    and g: "get_payload (take (unat c) packet) \<lparr>ts = t1, caplen = c, len = n1\<rparr> = Inr p"
    by blast+
  from g show "get_payload packet \<lparr>ts = t1, caplen = c, len = n1\<rparr> = Inr p"
    by (rule get_payload_extend)
  from g have "get_payload (take (unat c) packet') \<lparr>ts = t1, caplen = c, len = n1\<rparr> = Inr p"
    unfolding t .
  then have "get_payload packet' \<lparr>ts = t1, caplen = c, len = n1\<rparr> = Inr p"
    by (rule get_payload_extend)
  with e [of packet'] show "get_payload packet' \<lparr>ts = t2, caplen = c, len = n2\<rparr> = Inr p"
    by simp
qed

text \<open>
  The witness: the 66 bytes of the frame with a VLAN tag, IPv4 and TCP, captured whole,
  once alone and once followed by two more bytes in the buffer, with another time stamp
  and original length.
\<close>

theorem get_payload_depends_on_witness:
  "get_payload
     (replicate 12 0 @ [0x81, 0x00, 0, 0, 0x08, 0x00]
        @ [0x45] @ replicate 8 0 @ [6] @ replicate 10 0
        @ replicate 12 0 @ [0x50] @ replicate 7 0
        @ [1, 2, 3, 4, 5, 6, 7, 8])
     \<lparr>ts = (0, 0), caplen = 66, len = 66\<rparr> = Inr 58
   \<and> get_payload
     ((replicate 12 0 @ [0x81, 0x00, 0, 0, 0x08, 0x00]
        @ [0x45] @ replicate 8 0 @ [6] @ replicate 10 0
        @ replicate 12 0 @ [0x50] @ replicate 7 0
        @ [1, 2, 3, 4, 5, 6, 7, 8]) @ [0xff, 0xff])
     \<lparr>ts = (1, 0), caplen = 66, len = 1500\<rparr> = Inr 58"
proof -
  let ?F = "replicate 12 0 @ [0x81, 0x00, 0, 0, 0x08, 0x00]
        @ [0x45] @ replicate 8 0 @ [6] @ replicate 10 0
        @ replicate 12 0 @ [0x50] @ replicate 7 0
        @ [1, 2, 3, 4, 5, 6, 7, 8 :: byte]"
  have l: "take (unat (66 :: 32 word)) ?F = ?F"
    by simp
  have t: "take (unat (66 :: 32 word)) (?F @ [0xff, 0xff]) = take (unat (66 :: 32 word)) ?F"
    by simp
  have "get_payload ?F \<lparr>ts = (0, 0), caplen = 66, len = 66\<rparr> = Inr 58"
    by (simp add: get_payload_eval)
  then have g: "get_payload (take (unat (66 :: 32 word)) ?F)
      \<lparr>ts = (0, 0), caplen = 66, len = 66\<rparr> = Inr 58"
    unfolding l .
  from get_payload_depends_on [of ?F "(0, 0)" 66 66 "(1, 0)" 1500 "?F @ [0xff, 0xff]" 58] t g
  show ?thesis
    by blast
qed

section \<open>State labelling: \<^verbatim>\<open>label_states\<close> of reduce.cpp\<close>

text \<open>
  \<^verbatim>\<open>FastNfa\<close> is declared in nfa.hpp, which is not among the verified sources.
  \<^verbatim>\<open>label_states\<close> uses three members of it, which the model takes as the fields of a
  record: \<^verbatim>\<open>state_count()\<close>, \<^verbatim>\<open>get_initial_state_idx()\<close>, and
  \<^verbatim>\<open>parse_word(payload, len, visitor)\<close>, given as the list of the states that it passes
  to the visitor, in the order of the calls. The automaton is an argument of the model
  and no part of its result: that \<^verbatim>\<open>parse_word\<close> leaves the automaton as it is belongs
  to this reading of nfa.hpp.
  The counters are of type \<^verbatim>\<open>size_t\<close>, words of 64 bits. An index outside a vector is
  undefined behaviour in C++ and an error value of the model.
\<close>

type_synonym State = nat
type_synonym size_t = "64 word"

record FastNfa =
  state_count :: nat
  get_initial_state_idx :: nat
  parse_word :: "byte list \<Rightarrow> State list"

datatype index_error = BitmapIndex nat | FreqIndex nat

text \<open>The visitor \<^verbatim>\<open>[&bm](State s){ bm[s] = 1; }\<close>, called for each visited state.\<close>

fun mark_visited :: "bool list \<Rightarrow> State list \<Rightarrow> index_error + bool list" where
  "mark_visited bm [] = Inr bm"
| "mark_visited bm (s # ss) =
     (if s < length bm then mark_visited (bm[s := True]) ss else Inl (BitmapIndex s))"

text \<open>
  The loop \<^verbatim>\<open>for (i = 0; i < state_freq.size(); i++) state_freq[i] += bm[i]\<close>, from
  index \<open>i\<close> on.
\<close>

fun add_bitmap :: "nat \<Rightarrow> size_t list \<Rightarrow> bool list \<Rightarrow> index_error + size_t list" where
  "add_bitmap i [] bm = Inr []"
| "add_bitmap i (c # cs) bm =
     (if i < length bm then
        (case add_bitmap (Suc i) cs bm of
           Inl e \<Rightarrow> Inl e
         | Inr cs' \<Rightarrow> Inr ((c + of_bool (bm ! i)) # cs'))
      else Inl (BitmapIndex i))"

definition label_states :: "FastNfa \<Rightarrow> size_t list \<Rightarrow> byte list \<Rightarrow> index_error + size_t list" where
  "label_states nfa state_freq payload =
     (case mark_visited (replicate (state_count nfa) False) (parse_word nfa payload) of
        Inl e \<Rightarrow> Inl e
      | Inr bm \<Rightarrow>
          (case add_bitmap 0 state_freq bm of
             Inl e \<Rightarrow> Inl e
           | Inr state_freq' \<Rightarrow>
               (let init = get_initial_state_idx nfa in
                if init < length state_freq'
                then Inr (state_freq'[init := state_freq' ! init + 1])
                else Inl (FreqIndex init))))"

lemma mark_visited_ok:
  "\<forall>s \<in> set ss. s < length bm \<Longrightarrow>
     \<exists>bm'. mark_visited bm ss = Inr bm' \<and> length bm' = length bm \<and>
       (\<forall>i < length bm. bm' ! i = (bm ! i \<or> i \<in> set ss))"
proof (induction ss arbitrary: bm)
  case Nil
  then show ?case by simp
next
  case (Cons s ss)
  from Cons.prems have s: "s < length bm" and ss: "\<forall>t \<in> set ss. t < length (bm[s := True])"
    by simp_all
  from Cons.IH [OF ss] obtain bm' where
    m: "mark_visited (bm[s := True]) ss = Inr bm'" and
    l: "length bm' = length bm" and
    n: "\<forall>i < length bm. bm' ! i = ((bm[s := True]) ! i \<or> i \<in> set ss)"
    by auto
  from n s have "\<forall>i < length bm. bm' ! i = (bm ! i \<or> i \<in> set (s # ss))"
    by (auto simp: nth_list_update)
  with m l s show ?case by simp
qed

lemma add_bitmap_ok:
  "i + length cs \<le> length bm \<Longrightarrow>
     \<exists>cs'. add_bitmap i cs bm = Inr cs' \<and> length cs' = length cs \<and>
       (\<forall>k < length cs. cs' ! k = cs ! k + of_bool (bm ! (i + k)))"
proof (induction cs arbitrary: i)
  case Nil
  then show ?case by simp
next
  case (Cons c cs)
  from Cons.prems have i: "i < length bm" and r: "Suc i + length cs \<le> length bm"
    by simp_all
  from Cons.IH [OF r] obtain cs' where
    a: "add_bitmap (Suc i) cs bm = Inr cs'" and
    l: "length cs' = length cs" and
    n: "\<forall>k < length cs. cs' ! k = cs ! k + of_bool (bm ! (Suc i + k))"
    by auto
  have "\<forall>k < length (c # cs).
          ((c + of_bool (bm ! i)) # cs') ! k = (c # cs) ! k + of_bool (bm ! (i + k))"
    using n by (auto simp: nth_Cons split: nat.splits)
  with a l i show ?case by simp
qed

text \<open>
  C4. For a vector of counters no longer than the number of states (in \<^verbatim>\<open>main\<close> it has
  that length), visited states that are states of the automaton, and an initial state
  that has a counter: \<open>label_states\<close> returns the counters, each one increased by 1 if
  its state is among the visited states of this payload (once, however often it was
  visited) and by 0 otherwise, and the counter of the initial state increased by 1
  more. The additions are those of \<^verbatim>\<open>size_t\<close>. The result has the counters only: the
  automaton is not changed.
\<close>

theorem label_states_counts:
  assumes "length state_freq \<le> state_count nfa"
    and "\<forall>s \<in> set (parse_word nfa payload). s < state_count nfa"
    and "get_initial_state_idx nfa < length state_freq"
  shows "\<exists>state_freq'. label_states nfa state_freq payload = Inr state_freq' \<and>
           length state_freq' = length state_freq \<and>
           (\<forall>i < length state_freq.
              state_freq' ! i = state_freq ! i
                + (if i \<in> set (parse_word nfa payload) then 1 else 0)
                + (if i = get_initial_state_idx nfa then 1 else 0))"
proof -
  let ?n = "state_count nfa"
  from assms(2) have "\<forall>s \<in> set (parse_word nfa payload). s < length (replicate ?n False)"
    by simp
  from mark_visited_ok [OF this] obtain bm where
    m: "mark_visited (replicate ?n False) (parse_word nfa payload) = Inr bm" and
    lb: "length bm = ?n" and
    nb: "\<forall>i < ?n. bm ! i = (i \<in> set (parse_word nfa payload))"
    by auto
  from assms(1) lb have "0 + length state_freq \<le> length bm"
    by simp
  from add_bitmap_ok [OF this] obtain cs where
    a: "add_bitmap 0 state_freq bm = Inr cs" and
    lc: "length cs = length state_freq" and
    nc: "\<forall>k < length state_freq. cs ! k = state_freq ! k + of_bool (bm ! k)"
    by auto
  let ?init = "get_initial_state_idx nfa"
  from m a lc assms(3)
  have r: "label_states nfa state_freq payload = Inr (cs[?init := cs ! ?init + 1])"
    by (simp add: label_states_def Let_def)
  have "\<forall>i < length state_freq.
          (cs[?init := cs ! ?init + 1]) ! i = state_freq ! i
            + (if i \<in> set (parse_word nfa payload) then 1 else 0)
            + (if i = ?init then 1 else 0)"
    using nc nb lc assms(1) by (auto simp: nth_list_update)
  with r lc show ?thesis by simp
qed

text \<open>
  The witness: three states, the initial state 0, a payload on which states 0 and 2 are
  visited, state 2 twice. The counters 5, 7, 9 become 7, 7, 10.
\<close>

theorem label_states_counts_witness:
  "label_states \<lparr>state_count = 3, get_initial_state_idx = 0, parse_word = (\<lambda>w. [0, 2, 2])\<rparr>
     [5, 7, 9] [0x61] = Inr [7, 7, 10]"
  using label_states_counts [of "[5, 7, 9]"
    "\<lparr>state_count = 3, get_initial_state_idx = 0, parse_word = (\<lambda>w. [0, 2, 2])\<rparr>" "[0x61]"]
  by (simp add: label_states_def Let_def eval_nat_numeral)

section \<open>The derived metrics of par\_test.cpp\<close>

text \<open>
  Modelled from the spec: the declaration of \<^verbatim>\<open>ErrorStats\<close> (nfa\_error.hpp) is not
  among the verified sources. The record has the five counters that the spec lists;
  their type is taken to be \<^verbatim>\<open>size_t\<close>, the type that \<^verbatim>\<open>main\<close> gives to their
  difference.
\<close>

record ErrorStats =
  total :: size_t
  accepted_target :: size_t
  accepted_reduced :: size_t
  wrongly_classified :: size_t
  correctly_classified :: size_t

subsection \<open>Floating-point numbers\<close>

text \<open>
  \<^verbatim>\<open>main\<close> computes each metric as \<^verbatim>\<open>n * 1.0 / d\<close> for two values \<open>n\<close> and \<open>d\<close> of
  type \<^verbatim>\<open>size_t\<close> and stores it in a \<^verbatim>\<open>float\<close>: \<open>n\<close> is converted to \<^verbatim>\<open>double\<close>
  and multiplied by 1, \<open>d\<close> is converted to \<^verbatim>\<open>double\<close>, the division is that of
  \<^verbatim>\<open>double\<close>, and the quotient is narrowed to \<^verbatim>\<open>float\<close>. The model takes the
  formats to be those of IEEE 754, binary64 with 53 significant bits and binary32 with
  24, and every one of these four operations to round to the nearest value of its
  format, ties to the even mantissa.

  A finite value that is not negative is given by a mantissa \<open>m\<close> and an exponent \<open>e\<close>
  and is \<open>m * 2 ^ e\<close>. The exponent of the model has no bounds: the values of these
  computations are 0 or lie between \<open>2 ^ - 65\<close> and \<open>2 ^ 65\<close>, among the normal numbers
  of both formats.
\<close>

record fl =
  mant :: nat
  expo :: int

definition fl_val :: "fl \<Rightarrow> rat" where
  "fl_val x = of_nat (mant x) * 2 powi expo x"

text \<open>The integer nearest to \<open>a / b\<close>; of two nearest integers, the even one.\<close>

definition round_div :: "nat \<Rightarrow> nat \<Rightarrow> nat" where
  "round_div a b =
     (let q = a div b; r = a mod b
      in if b < 2 * r \<or> (2 * r = b \<and> odd q) then q + 1 else q)"

text \<open>The exponent of the leading bit of \<open>a / b\<close>: \<open>2 ^ e \<le> a / b < 2 ^ (e + 1)\<close>.\<close>

definition frac_exponent :: "nat \<Rightarrow> nat \<Rightarrow> int" where
  "frac_exponent a b =
     int (floorlog 2 a) - int (floorlog 2 b)
       - (if b * 2 ^ floorlog 2 a \<le> a * 2 ^ floorlog 2 b then 0 else 1)"

text \<open>
  \<open>a / b\<close> rounded to \<open>p\<close> significant bits: the quotient is scaled by the power of
  two that brings its leading bit to position \<open>p - 1\<close>, and rounded to an integer.
\<close>

definition round_frac :: "nat \<Rightarrow> nat \<Rightarrow> nat \<Rightarrow> fl" where
  "round_frac p a b =
     (if a = 0 then \<lparr>mant = 0, expo = 0\<rparr>
      else
        let t = int p - 1 - frac_exponent a b
        in if 0 \<le> t then \<lparr>mant = round_div (a * 2 ^ nat t) b, expo = - t\<rparr>
           else \<lparr>mant = round_div a (b * 2 ^ nat (- t)), expo = - t\<rparr>)"

text \<open>The conversion of a \<^verbatim>\<open>size_t\<close> to \<^verbatim>\<open>double\<close>.\<close>

definition to_double :: "nat \<Rightarrow> fl" where
  "to_double n = round_frac 53 n 1"

text \<open>
  The division of two values of type \<^verbatim>\<open>double\<close>, the divisor not 0: the quotient of
  the mantissas is rounded, the exponents are subtracted.
\<close>

definition double_div :: "fl \<Rightarrow> fl \<Rightarrow> fl" where
  "double_div x y =
     (let r = round_frac 53 (mant x) (mant y) in r\<lparr>expo := expo r + expo x - expo y\<rparr>)"

text \<open>The conversion of a \<^verbatim>\<open>double\<close> to \<^verbatim>\<open>float\<close>.\<close>

definition to_float :: "fl \<Rightarrow> fl" where
  "to_float x = (let r = round_frac 24 (mant x) 1 in r\<lparr>expo := expo r + expo x\<rparr>)"

text \<open>A value of type \<^verbatim>\<open>float\<close>: a number, an infinity or not-a-number.\<close>

datatype fp = Finite rat | PosInf | NegInf | NaN

text \<open>
  The \<^verbatim>\<open>float\<close> that \<^verbatim>\<open>n * 1.0 / d\<close> gives for two values \<open>n\<close> and \<open>d\<close> of type
  \<^verbatim>\<open>size_t\<close>; for a divisor 0 the division of \<^verbatim>\<open>double\<close> gives an infinity, or
  not-a-number for \<open>0 / 0\<close>.
\<close>

definition fdiv :: "nat \<Rightarrow> nat \<Rightarrow> fp" where
  "fdiv n d =
     (if d \<noteq> 0 then Finite (fl_val (to_float (double_div (to_double n) (to_double d))))
      else if n \<noteq> 0 then PosInf else NaN)"

definition wrong_acceptances :: "ErrorStats \<Rightarrow> size_t" where
  "wrong_acceptances aggr = accepted_reduced aggr - accepted_target aggr"

definition pe :: "ErrorStats \<Rightarrow> fp" where
  "pe aggr = fdiv (unat (wrong_acceptances aggr)) (unat (total aggr))"

definition ce :: "ErrorStats \<Rightarrow> fp" where
  "ce aggr = fdiv (unat (wrongly_classified aggr)) (unat (total aggr))"

definition cls_ratio :: "ErrorStats \<Rightarrow> fp" where
  "cls_ratio aggr =
     fdiv (unat (correctly_classified aggr))
       (unat (correctly_classified aggr + wrongly_classified aggr))"

subsection \<open>The metrics in the words of the spec\<close>

text \<open>
  The three quotients as the spec states them, over the numbers that the counters
  hold: the difference and the sum are those of the integers.
\<close>

definition spec_pe :: "ErrorStats \<Rightarrow> rat" where
  "spec_pe aggr =
     (of_nat (unat (accepted_reduced aggr)) - of_nat (unat (accepted_target aggr)))
       / of_nat (unat (total aggr))"

definition spec_ce :: "ErrorStats \<Rightarrow> rat" where
  "spec_ce aggr = of_nat (unat (wrongly_classified aggr)) / of_nat (unat (total aggr))"

definition spec_cls_ratio :: "ErrorStats \<Rightarrow> rat" where
  "spec_cls_ratio aggr =
     of_nat (unat (correctly_classified aggr))
       / (of_nat (unat (correctly_classified aggr)) + of_nat (unat (wrongly_classified aggr)))"

subsection \<open>The rounding error of a metric\<close>

lemmas fl_eval =
  fdiv_def to_float_def double_div_def to_double_def round_frac_def round_div_def
  frac_exponent_def fl_val_def Let_def compute_floorlog

text \<open>Fractions of natural numbers are compared by cross multiplication.\<close>

lemma frac_le_nat:
  "0 < b \<Longrightarrow> 0 < d \<Longrightarrow> a * d \<le> c * b \<Longrightarrow> (of_nat a / of_nat b :: rat) \<le> of_nat c / of_nat d"
proof -
  assume b: "0 < b" and d: "0 < d" and le: "a * d \<le> c * b"
  from le have "(of_nat (a * d) :: rat) \<le> of_nat (c * b)"
    by (simp only: of_nat_le_iff)
  then have "(of_nat a :: rat) * of_nat d \<le> of_nat c * of_nat b"
    by simp
  with b d show ?thesis
    by (simp add: field_simps)
qed

lemma frac_less_nat:
  "0 < b \<Longrightarrow> 0 < d \<Longrightarrow> a * d < c * b \<Longrightarrow> (of_nat a / of_nat b :: rat) < of_nat c / of_nat d"
proof -
  assume b: "0 < b" and d: "0 < d" and le: "a * d < c * b"
  from le have "(of_nat (a * d) :: rat) < of_nat (c * b)"
    by (simp only: of_nat_less_iff)
  then have "(of_nat a :: rat) * of_nat d < of_nat c * of_nat b"
    by simp
  with b d show ?thesis
    by (simp add: field_simps)
qed

lemma powi_diff_nat: "(2 :: rat) powi (int m - int n) = of_nat (2 ^ m) / of_nat (2 ^ n)"
  by (simp add: power_int_diff)

text \<open>\<open>frac_exponent\<close> is the exponent of the leading bit.\<close>

lemma frac_exponent_bounds:
  assumes a: "0 < a" and b: "0 < b"
  shows "2 powi frac_exponent a b \<le> (of_nat a / of_nat b :: rat)"
    and "(of_nat a / of_nat b :: rat) < 2 powi (frac_exponent a b + 1)"
proof -
  let ?la = "floorlog 2 a" and ?lb = "floorlog 2 b"
  from floorlog_bounds [of a 2] a have A: "2 ^ (?la - 1) \<le> a" "a < 2 ^ ?la"
    by simp_all
  from floorlog_bounds [of b 2] b have B: "2 ^ (?lb - 1) \<le> b" "b < 2 ^ ?lb"
    by simp_all
  from a have la: "0 < ?la"
    by (simp add: floorlog_def)
  from b have lb: "0 < ?lb"
    by (simp add: floorlog_def)
  from la have pa: "(2 :: nat) ^ ?la = 2 * 2 ^ (?la - 1)"
    by (cases ?la) simp_all
  from lb have pb: "(2 :: nat) ^ ?lb = 2 * 2 ^ (?lb - 1)"
    by (cases ?lb) simp_all
  show "2 powi frac_exponent a b \<le> (of_nat a / of_nat b :: rat)"
  proof (cases "b * 2 ^ ?la \<le> a * 2 ^ ?lb")
    case True
    then have e: "frac_exponent a b = int ?la - int ?lb"
      by (simp add: frac_exponent_def)
    from True have "2 ^ ?la * b \<le> a * 2 ^ ?lb"
      by (simp add: mult.commute)
    from frac_le_nat [OF _ b this] show ?thesis
      unfolding e powi_diff_nat by simp
  next
    case False
    with la have e: "frac_exponent a b = int (?la - 1) - int ?lb"
      by (simp add: frac_exponent_def)
    have "2 ^ (?la - 1) * b \<le> a * b"
      using A(1) by simp
    also have "\<dots> \<le> a * 2 ^ ?lb"
      using B(2) by simp
    finally have "2 ^ (?la - 1) * b \<le> a * 2 ^ ?lb" .
    from frac_le_nat [OF _ b this] show ?thesis
      unfolding e powi_diff_nat by simp
  qed
  show "(of_nat a / of_nat b :: rat) < 2 powi (frac_exponent a b + 1)"
  proof (cases "b * 2 ^ ?la \<le> a * 2 ^ ?lb")
    case True
    then have e: "frac_exponent a b + 1 = int (Suc ?la) - int ?lb"
      by (simp add: frac_exponent_def)
    have "a * 2 ^ ?lb \<le> a * (2 * b)"
      using B(1) pb by simp
    also have "\<dots> < 2 ^ ?la * (2 * b)"
      using A(2) b by simp
    finally have "a * 2 ^ ?lb < 2 ^ Suc ?la * b"
      by simp
    from frac_less_nat [OF b _ this] show ?thesis
      unfolding e powi_diff_nat by simp
  next
    case False
    then have e: "frac_exponent a b + 1 = int ?la - int ?lb"
      by (simp add: frac_exponent_def)
    from False have "a * 2 ^ ?lb < 2 ^ ?la * b"
      by (simp add: mult.commute)
    from frac_less_nat [OF b _ this] show ?thesis
      unfolding e powi_diff_nat by simp
  qed
qed

text \<open>\<open>round_div\<close> is off by at most one half.\<close>

lemma round_div_error:
  assumes b: "0 < b"
  shows "\<bar>of_nat (round_div a b) - of_nat a / of_nat b\<bar> \<le> (1 / 2 :: rat)"
proof -
  define q where "q = a div b"
  define r where "r = a mod b"
  have a: "a = q * b + r"
    by (simp add: q_def r_def)
  from b have rb: "r < b"
    by (simp add: r_def)
  have x: "(of_nat a / of_nat b :: rat) = of_nat q + of_nat r / of_nat b"
    using b by (simp add: a field_simps)
  have f1: "(0 :: rat) \<le> of_nat r / of_nat b"
    by simp
  have f2: "(of_nat r / of_nat b :: rat) < 1"
    using rb b by simp
  show ?thesis
  proof (cases "b < 2 * r \<or> (2 * r = b \<and> odd q)")
    case True
    then have "b \<le> 2 * r"
      by auto
    then have "(of_nat b :: rat) \<le> of_nat (2 * r)"
      by (simp only: of_nat_le_iff)
    then have "(1 / 2 :: rat) \<le> of_nat r / of_nat b"
      using b by (simp add: field_simps)
    moreover from True have "round_div a b = q + 1"
      by (simp add: round_div_def q_def r_def Let_def)
    ultimately show ?thesis
      using f2 unfolding x by simp
  next
    case False
    then have "2 * r \<le> b"
      by auto
    then have "(of_nat (2 * r) :: rat) \<le> of_nat b"
      by (simp only: of_nat_le_iff)
    then have "(of_nat r / of_nat b :: rat) \<le> 1 / 2"
      using b by (simp add: field_simps)
    moreover from False have "round_div a b = q"
      by (simp add: round_div_def q_def r_def Let_def)
    ultimately show ?thesis
      using f1 unfolding x by simp
  qed
qed


text \<open>
  Rounding to \<open>p\<close> bits changes a value by at most the fraction \<open>1 / 2 ^ p\<close> of it,
  and the mantissa of the result has \<open>p\<close> bits (or is \<open>2 ^ p\<close>, when the value is
  rounded up to the next power of two).
\<close>

lemma round_frac_error:
  assumes a: "0 < a" and b: "0 < b" and p: "0 < p"
  shows "\<bar>fl_val (round_frac p a b) - of_nat a / of_nat b\<bar> \<le> (of_nat a / of_nat b) / 2 ^ p"
proof -
  define x :: rat where "x = of_nat a / of_nat b"
  define t where "t = int p - 1 - frac_exponent a b"
  define s :: rat where "s = 2 powi t"
  have s: "0 < s"
    by (simp add: s_def)
  have si: "2 powi (- t) = 1 / s"
    by (simp add: s_def power_int_minus inverse_eq_divide)
  obtain m where rf: "round_frac p a b = \<lparr>mant = m, expo = - t\<rparr>"
    and err: "\<bar>of_nat m - x * s\<bar> \<le> (1 / 2 :: rat)"
  proof (cases "0 \<le> t")
    case True
    then have "s = 2 ^ nat t"
      by (simp add: s_def power_int_def)
    then have "(of_nat (a * 2 ^ nat t) / of_nat b :: rat) = x * s"
      by (simp add: x_def)
    with round_div_error [OF b, of "a * 2 ^ nat t"]
    have "\<bar>of_nat (round_div (a * 2 ^ nat t) b) - x * s\<bar> \<le> (1 / 2 :: rat)"
      by simp
    moreover from True a
    have "round_frac p a b = \<lparr>mant = round_div (a * 2 ^ nat t) b, expo = - t\<rparr>"
      by (simp add: round_frac_def t_def Let_def)
    ultimately show ?thesis
      by (rule that [rotated])
  next
    case False
    then have "(2 :: rat) powi (- t) = 2 ^ nat (- t)"
      by (simp add: power_int_def)
    with power_int_minus [of "2 :: rat" "- t"] have "s = 1 / 2 ^ nat (- t)"
      by (simp add: s_def inverse_eq_divide)
    then have "(of_nat a / of_nat (b * 2 ^ nat (- t)) :: rat) = x * s"
      by (simp add: x_def)
    moreover from b have "0 < b * 2 ^ nat (- t)"
      by simp
    from round_div_error [OF this, of a]
    have "\<bar>of_nat (round_div a (b * 2 ^ nat (- t))) - of_nat a / of_nat (b * 2 ^ nat (- t))\<bar>
        \<le> (1 / 2 :: rat)" .
    ultimately
    have "\<bar>of_nat (round_div a (b * 2 ^ nat (- t))) - x * s\<bar> \<le> (1 / 2 :: rat)"
      by simp
    moreover from False a
    have "round_frac p a b = \<lparr>mant = round_div a (b * 2 ^ nat (- t)), expo = - t\<rparr>"
      by (simp add: round_frac_def t_def Let_def)
    ultimately show ?thesis
      by (rule that [rotated])
  qed
  have "2 powi frac_exponent a b * s = (2 :: rat) powi (int p - 1)"
    by (simp add: s_def t_def flip: power_int_add)
  also from p have "\<dots> = 2 ^ (p - 1)"
    by (simp add: power_int_def nat_diff_distrib)
  finally have "(2 :: rat) ^ (p - 1) = 2 powi frac_exponent a b * s" ..
  also have "\<dots> \<le> x * s"
    unfolding x_def using frac_exponent_bounds(1) [OF a b] s by (intro mult_right_mono) simp_all
  finally have "(2 :: rat) ^ (p - 1) \<le> x * s" .
  moreover from p have "(2 :: rat) ^ p = 2 * 2 ^ (p - 1)"
    by (cases p) simp_all
  ultimately have half: "(1 / 2 :: rat) \<le> x * s / 2 ^ p"
    by (simp add: field_simps)
  have "fl_val (round_frac p a b) - x = (of_nat m - x * s) / s"
    using s by (simp add: rf fl_val_def si field_simps)
  then have "\<bar>fl_val (round_frac p a b) - x\<bar> = \<bar>of_nat m - x * s\<bar> / s"
    using s by (simp add: abs_divide)
  also have "\<dots> \<le> (x * s / 2 ^ p) / s"
  proof (rule divide_right_mono)
    from err half show "\<bar>of_nat m - x * s\<bar> \<le> x * s / 2 ^ p"
      by (rule order_trans)
    from s show "0 \<le> s"
      by simp
  qed
  also have "\<dots> = x / 2 ^ p"
    using s by simp
  finally show ?thesis
    by (simp add: x_def)
qed


lemma round_div_range: "a div b \<le> round_div a b \<and> round_div a b \<le> a div b + 1"
  by (simp add: round_div_def Let_def)

lemma round_frac_mant:
  assumes a: "0 < a" and b: "0 < b" and p: "0 < p"
  shows "2 ^ (p - 1) \<le> mant (round_frac p a b) \<and> mant (round_frac p a b) \<le> 2 ^ p"
proof -
  define x :: rat where "x = of_nat a / of_nat b"
  define t where "t = int p - 1 - frac_exponent a b"
  define s :: rat where "s = 2 powi t"
  have s: "0 < s"
    by (simp add: s_def)
  obtain A B where B: "0 < B" and rf: "mant (round_frac p a b) = round_div A B"
    and sc: "(of_nat A :: rat) = x * s * of_nat B"
  proof (cases "0 \<le> t")
    case True
    then have "s = 2 ^ nat t"
      by (simp add: s_def power_int_def)
    with b have "(of_nat (a * 2 ^ nat t) :: rat) = x * s * of_nat b"
      by (simp add: x_def)
    moreover from True a
    have "mant (round_frac p a b) = round_div (a * 2 ^ nat t) b"
      by (simp add: round_frac_def t_def Let_def)
    ultimately show ?thesis
      using b by (intro that)
  next
    case False
    then have "(2 :: rat) powi (- t) = 2 ^ nat (- t)"
      by (simp add: power_int_def)
    with power_int_minus [of "2 :: rat" "- t"] have "s = 1 / 2 ^ nat (- t)"
      by (simp add: s_def inverse_eq_divide)
    with b have "(of_nat a :: rat) = x * s * of_nat (b * 2 ^ nat (- t))"
      by (simp add: x_def)
    moreover from b have "0 < b * 2 ^ nat (- t)"
      by simp
    moreover from False a
    have "mant (round_frac p a b) = round_div a (b * 2 ^ nat (- t))"
      by (simp add: round_frac_def t_def Let_def)
    ultimately show ?thesis
      by (intro that)
  qed
  have e1: "2 powi frac_exponent a b * s = (2 :: rat) powi (int p - 1)"
    by (simp add: s_def t_def flip: power_int_add)
  have e2: "2 powi (frac_exponent a b + 1) * s = (2 :: rat) powi int p"
    by (simp add: s_def t_def flip: power_int_add)
  from p have p1: "(2 :: rat) powi (int p - 1) = 2 ^ (p - 1)"
    by (simp add: power_int_def nat_diff_distrib)
  have "(2 :: rat) ^ (p - 1) = 2 powi frac_exponent a b * s"
    by (simp only: e1 p1)
  also have "\<dots> \<le> x * s"
    unfolding x_def using frac_exponent_bounds(1) [OF a b] s by (intro mult_right_mono) simp_all
  finally have "(2 :: rat) ^ (p - 1) * of_nat B \<le> x * s * of_nat B"
    by (intro mult_right_mono) simp_all
  then have "(of_nat (2 ^ (p - 1) * B) :: rat) \<le> of_nat A"
    by (simp add: sc)
  then have lo: "2 ^ (p - 1) * B \<le> A"
    by (simp only: of_nat_le_iff)
  have "x * s < 2 powi (frac_exponent a b + 1) * s"
    unfolding x_def using frac_exponent_bounds(2) [OF a b] s by (intro mult_strict_right_mono)
  also have "\<dots> = 2 ^ p"
    by (simp add: e2)
  finally have "x * s * of_nat B < 2 ^ p * of_nat B"
    using B by (intro mult_strict_right_mono) simp_all
  then have "(of_nat A :: rat) < of_nat (2 ^ p * B)"
    by (simp add: sc)
  then have hi: "A < 2 ^ p * B"
    by (simp only: of_nat_less_iff)
  from lo B have "2 ^ (p - 1) \<le> A div B"
    by (simp add: less_eq_div_iff_mult_less_eq)
  moreover from hi B have "A div B < 2 ^ p"
    by (simp add: div_less_iff_less_mult)
  ultimately show ?thesis
    using round_div_range [of A B] unfolding rf by simp
qed

text \<open>The four roundings of a metric, one after the other.\<close>

lemma rel_bounds:
  fixes x y c :: rat
  assumes "\<bar>y - x\<bar> \<le> x / c"
  shows "x - x / c \<le> y" and "y \<le> x + x / c"
  using assms by (simp_all add: abs_le_iff)

lemma rel_scale:
  fixes x y c k :: rat
  assumes "\<bar>y - x\<bar> \<le> x / c" and "0 < k"
  shows "\<bar>y * k - x * k\<bar> \<le> x * k / c"
proof -
  have "\<bar>y * k - x * k\<bar> = \<bar>y - x\<bar> * k"
    using assms(2) by (simp add: abs_mult flip: left_diff_distrib)
  also have "\<dots> \<le> x / c * k"
    using assms by (intro mult_right_mono) simp_all
  finally show ?thesis
    by simp
qed

lemma fl_val_expo: "fl_val (r\<lparr>expo := expo r + k\<rparr>) = fl_val r * 2 powi k"
  by (simp add: fl_val_def power_int_add)

lemma mant_pos: "0 < fl_val x \<Longrightarrow> 0 < mant x"
  by (cases "mant x = 0") (simp_all add: fl_val_def)

lemma to_double_error:
  "0 < n \<Longrightarrow> \<bar>fl_val (to_double n) - of_nat n\<bar> \<le> of_nat n / 2 ^ 53"
  using round_frac_error [of n 1 53] by (simp add: to_double_def)

lemma double_div_error:
  assumes "0 < mant x" and "0 < mant y"
  shows "\<bar>fl_val (double_div x y) - fl_val x / fl_val y\<bar> \<le> fl_val x / fl_val y / 2 ^ 53"
proof -
  define k :: rat where "k = 2 powi (expo x - expo y)"
  have k: "0 < k"
    by (simp add: k_def)
  have q: "fl_val x / fl_val y = of_nat (mant x) / of_nat (mant y) * k"
    by (simp add: fl_val_def k_def power_int_diff)
  have v: "fl_val (double_div x y) = fl_val (round_frac 53 (mant x) (mant y)) * k"
    using fl_val_expo [of "round_frac 53 (mant x) (mant y)" "expo x - expo y"]
    by (simp add: double_div_def Let_def k_def add_diff_eq)
  from rel_scale [OF round_frac_error [OF assms, of 53] k] show ?thesis
    unfolding q v by simp
qed

lemma to_float_error:
  assumes "0 < mant x"
  shows "\<bar>fl_val (to_float x) - fl_val x\<bar> \<le> fl_val x / 2 ^ 24"
proof -
  define k :: rat where "k = 2 powi expo x"
  have k: "0 < k"
    by (simp add: k_def)
  have v: "fl_val (to_float x) = fl_val (round_frac 24 (mant x) 1) * k"
    using fl_val_expo [of "round_frac 24 (mant x) 1" "expo x"]
    by (simp add: to_float_def Let_def k_def)
  have q: "fl_val x = of_nat (mant x) / of_nat 1 * k"
    by (simp add: fl_val_def k_def)
  from rel_scale [OF round_frac_error [OF assms, of 1 24] k] show ?thesis
    unfolding v by (simp add: fl_val_def k_def)
qed

lemma rounding_constants:
  "(1 + 1 / 2 ^ 53) * (1 + 1 / 2 ^ 53) * (1 + 1 / 2 ^ 24) / (1 - 1 / 2 ^ 53) \<le> (1 + 1 / 2 ^ 23 :: rat)"
  "(1 - 1 / 2 ^ 23 :: rat) \<le> (1 - 1 / 2 ^ 53) * (1 - 1 / 2 ^ 53) * (1 - 1 / 2 ^ 24) / (1 + 1 / 2 ^ 53)"
  by simp_all


lemma fdiv_zero: "0 < d \<Longrightarrow> fdiv 0 d = Finite 0"
  by (simp add: fdiv_def to_float_def double_div_def to_double_def round_frac_def fl_val_def Let_def)

lemma fdiv_close:
  assumes d: "0 < d"
  shows "\<exists>q. fdiv n d = Finite q \<and> 0 \<le> q
           \<and> \<bar>q - of_nat n / of_nat d\<bar> \<le> of_nat n / of_nat d / 2 ^ 23"
proof (cases "n = 0")
  case True
  with fdiv_zero [OF d] show ?thesis
    by simp
next
  case False
  then have n: "0 < n"
    by simp
  define U L V W :: rat where "U = 1 + 1 / 2 ^ 53" and "L = 1 - 1 / 2 ^ 53"
    and "V = 1 + 1 / 2 ^ 24" and "W = 1 - 1 / 2 ^ 24"
  have pos: "0 < U" "0 < L" "0 < V" "0 < W"
    by (simp_all add: U_def L_def V_def W_def)
  define N D :: rat where "N = of_nat n" and "D = of_nat d"
  have N: "0 < N" and D: "0 < D"
    using n d by (simp_all add: N_def D_def)
  define xv yv where "xv = fl_val (to_double n)" and "yv = fl_val (to_double d)"
  define zv where "zv = fl_val (double_div (to_double n) (to_double d))"
  define qv where "qv = fl_val (to_float (double_div (to_double n) (to_double d)))"
  from rel_bounds [OF to_double_error [OF n]]
  have x: "N * L \<le> xv" "xv \<le> N * U"
    by (simp_all add: N_def L_def U_def xv_def algebra_simps)
  from rel_bounds [OF to_double_error [OF d]]
  have y: "D * L \<le> yv" "yv \<le> D * U"
    by (simp_all add: D_def L_def U_def yv_def algebra_simps)
  from N pos(2) have "0 < N * L"
    by (rule mult_pos_pos)
  with x(1) have xpos: "0 < xv"
    by simp
  from D pos(2) have DL: "0 < D * L"
    by (rule mult_pos_pos)
  with y(1) have ypos: "0 < yv"
    by simp
  from xpos ypos have rpos: "0 < xv / yv"
    by simp
  from xpos have mx: "0 < mant (to_double n)"
    unfolding xv_def by (rule mant_pos)
  from ypos have my: "0 < mant (to_double d)"
    unfolding yv_def by (rule mant_pos)
  from rel_bounds [OF double_div_error [OF mx my]]
  have z: "xv / yv * L \<le> zv" "zv \<le> xv / yv * U"
    by (simp_all add: L_def U_def xv_def yv_def zv_def algebra_simps)
  from rpos pos(2) have "0 < xv / yv * L"
    by (rule mult_pos_pos)
  with z(1) have zpos: "0 < zv"
    by simp
  then have mz: "0 < mant (double_div (to_double n) (to_double d))"
    unfolding zv_def by (rule mant_pos)
  from rel_bounds [OF to_float_error [OF mz]]
  have q: "zv * W \<le> qv" "qv \<le> zv * V"
    by (simp_all add: W_def V_def zv_def qv_def algebra_simps)
  have up1: "xv / yv \<le> N * U / (D * L)"
    using x(2) y(1) DL N pos by (intro frac_le) simp_all
  have lo1: "N * L / (D * U) \<le> xv / yv"
    using x(1) y(2) xpos ypos by (intro frac_le) simp_all
  have "qv \<le> zv * V"
    by (rule q(2))
  also have "\<dots> \<le> xv / yv * U * V"
    using z(2) pos by (intro mult_right_mono) simp_all
  also have "\<dots> \<le> N * U / (D * L) * U * V"
    using up1 pos by (intro mult_right_mono) simp_all
  also have "\<dots> = N / D * (U * U * V / L)"
    by simp
  also have "\<dots> \<le> N / D * (1 + 1 / 2 ^ 23)"
    using N D rounding_constants(1) unfolding U_def L_def V_def
    by (intro mult_left_mono) simp_all
  finally have upper: "qv \<le> N / D + N / D / 2 ^ 23"
    by (simp add: algebra_simps)
  have "N / D * (1 - 1 / 2 ^ 23) \<le> N / D * (L * L * W / U)"
    using N D rounding_constants(2) unfolding U_def L_def W_def
    by (intro mult_left_mono) simp_all
  also have "\<dots> = N * L / (D * U) * L * W"
    by simp
  also have "\<dots> \<le> xv / yv * L * W"
    using lo1 pos by (intro mult_right_mono) simp_all
  also have "\<dots> \<le> zv * W"
    using z(1) pos by (intro mult_right_mono) simp_all
  also have "\<dots> \<le> qv"
    by (rule q(1))
  finally have lower: "N / D - N / D / 2 ^ 23 \<le> qv"
    by (simp add: algebra_simps)
  from zpos pos q(1) have "0 \<le> qv"
    by (meson less_imp_le mult_nonneg_nonneg order_trans)
  moreover from upper lower have "\<bar>qv - N / D\<bar> \<le> N / D / 2 ^ 23"
    by (simp add: abs_le_iff)
  moreover from d have "fdiv n d = Finite qv"
    by (simp add: fdiv_def qv_def)
  ultimately show ?thesis
    by (auto simp: N_def D_def)
qed


lemma unat_quotient_close:
  assumes "d \<noteq> 0"
  shows "\<exists>q. fdiv (unat n) (unat d) = Finite q \<and> 0 \<le> q
           \<and> \<bar>q - of_nat (unat n) / of_nat (unat d)\<bar>
               \<le> of_nat (unat n) / of_nat (unat d) / 2 ^ 23"
proof -
  from assms have "0 < unat d"
    by (simp add: unat_gt_0)
  then show ?thesis
    by (rule fdiv_close)
qed

text \<open>
  The values stay far inside the range of the normal numbers of \<^verbatim>\<open>float\<close> (from
  \<open>2 ^ - 126\<close> to almost \<open>2 ^ 128\<close>), and so do the intermediate values in the wider
  range of \<^verbatim>\<open>double\<close>: the exponent bounds of the formats, which the model leaves
  out, are never reached.
\<close>

lemma fdiv_range:
  assumes n: "0 < n" "n < 2 ^ 64" and d: "0 < d" "d < 2 ^ 64"
  shows "\<exists>q. fdiv n d = Finite q \<and> 1 / 2 ^ 65 \<le> q \<and> q \<le> 2 ^ 65"
proof -
  define x :: rat where "x = of_nat n / of_nat d"
  from fdiv_close [OF d(1), of n] obtain q where q: "fdiv n d = Finite q"
    and c: "\<bar>q - x\<bar> \<le> x / 2 ^ 23"
    unfolding x_def by blast
  from n d have "1 * d \<le> n * 2 ^ 64"
    by (simp add: less_imp_le mult_le_mono)
  from frac_le_nat [OF _ d(1) this] have lo: "1 / 2 ^ 64 \<le> x"
    by (simp add: x_def)
  from n d have "n * 1 \<le> 2 ^ 64 * d"
    by (simp add: less_imp_le mult_le_mono)
  from frac_le_nat [OF d(1) _ this] have hi: "x \<le> 2 ^ 64"
    by (simp add: x_def)
  from rel_bounds [OF c] have "x - x / 2 ^ 23 \<le> q" "q \<le> x + x / 2 ^ 23" .
  with lo hi have "1 / 2 ^ 65 \<le> q" "q \<le> 2 ^ 65"
    by simp_all
  with q show ?thesis
    by blast
qed

subsection \<open>The code against the spec\<close>

text \<open>
  C5, as stated, fails in two ways. Where the target automaton accepted more payloads
  than the reduced one, the difference is not that of the counts: with one payload,
  accepted by the target only, the code computes \<open>2 ^ 64\<close> where the quotient of the
  spec is \<open>- 1\<close>. And a metric is a \<^verbatim>\<open>float\<close>, not the exact quotient: for one
  wrongly classified payload of three the code computes \<open>11184811 / 2 ^ 25\<close>, not
  \<open>1 / 3\<close>.
\<close>

theorem pe_differs_from_signed_quotient:
  "pe \<lparr>total = 1, accepted_target = 1, accepted_reduced = 0,
       wrongly_classified = 1, correctly_classified = 0\<rparr> = Finite (2 ^ 64)
   \<and> spec_pe \<lparr>total = 1, accepted_target = 1, accepted_reduced = 0,
       wrongly_classified = 1, correctly_classified = 0\<rparr> = - 1
   \<and> ce \<lparr>total = 3, accepted_target = 1, accepted_reduced = 1,
       wrongly_classified = 1, correctly_classified = 2\<rparr> = Finite (11184811 / 2 ^ 25)
   \<and> spec_ce \<lparr>total = 3, accepted_target = 1, accepted_reduced = 1,
       wrongly_classified = 1, correctly_classified = 2\<rparr> = 1 / 3"
  by (simp add: pe_def ce_def spec_pe_def spec_ce_def wrong_acceptances_def fl_eval
      unsigned_minus_1_eq_mask mask_eq_exp_minus_1)

text \<open>
  C5, amended. Each metric is the \<^verbatim>\<open>float\<close> that the division in \<^verbatim>\<open>double\<close> of the two
  counters gives, and differs from the quotient of the spec by at most the fraction
  \<open>1 / 2 ^ 23\<close> of that quotient: \<open>pe\<close> from the difference of the accepted counts over
  the total, for a run with at least one payload in which the reduced automaton
  accepted no fewer payloads than the target; \<open>ce\<close> from the wrongly classified over
  the total, for a run with at least one payload; \<open>cls_ratio\<close> from the correctly
  classified over the sum of correctly and wrongly classified, provided that this sum
  is not 0 and fits a \<^verbatim>\<open>size_t\<close>.
\<close>

theorem derived_metrics:
  "(accepted_target aggr \<le> accepted_reduced aggr \<and> total aggr \<noteq> 0 \<longrightarrow>
      (\<exists>q. pe aggr = Finite q \<and> \<bar>q - spec_pe aggr\<bar> \<le> spec_pe aggr / 2 ^ 23))
   \<and> (total aggr \<noteq> 0 \<longrightarrow>
      (\<exists>q. ce aggr = Finite q \<and> \<bar>q - spec_ce aggr\<bar> \<le> spec_ce aggr / 2 ^ 23))
   \<and> (unat (correctly_classified aggr) + unat (wrongly_classified aggr) < 2 ^ 64
        \<and> correctly_classified aggr + wrongly_classified aggr \<noteq> 0 \<longrightarrow>
      (\<exists>q. cls_ratio aggr = Finite q
           \<and> \<bar>q - spec_cls_ratio aggr\<bar> \<le> spec_cls_ratio aggr / 2 ^ 23))"
proof (intro conjI impI)
  assume a: "accepted_target aggr \<le> accepted_reduced aggr \<and> total aggr \<noteq> 0"
  then have w: "unat (wrong_acceptances aggr)
      = unat (accepted_reduced aggr) - unat (accepted_target aggr)"
    by (simp add: wrong_acceptances_def unat_sub)
  from a have "unat (accepted_target aggr) \<le> unat (accepted_reduced aggr)"
    by (simp add: word_le_nat_alt)
  then have "(of_nat (unat (accepted_reduced aggr) - unat (accepted_target aggr)) :: rat)
      = of_nat (unat (accepted_reduced aggr)) - of_nat (unat (accepted_target aggr))"
    by (rule of_nat_diff)
  then have "spec_pe aggr
      = of_nat (unat (wrong_acceptances aggr)) / of_nat (unat (total aggr))"
    unfolding spec_pe_def w by (simp only:)
  with unat_quotient_close [of "total aggr" "wrong_acceptances aggr"] a
  show "\<exists>q. pe aggr = Finite q \<and> \<bar>q - spec_pe aggr\<bar> \<le> spec_pe aggr / 2 ^ 23"
    unfolding pe_def by auto
next
  assume "total aggr \<noteq> 0"
  from unat_quotient_close [OF this, of "wrongly_classified aggr"]
  show "\<exists>q. ce aggr = Finite q \<and> \<bar>q - spec_ce aggr\<bar> \<le> spec_ce aggr / 2 ^ 23"
    unfolding ce_def spec_ce_def by blast
next
  assume a: "unat (correctly_classified aggr) + unat (wrongly_classified aggr) < 2 ^ 64
        \<and> correctly_classified aggr + wrongly_classified aggr \<noteq> 0"
  then have s: "unat (correctly_classified aggr + wrongly_classified aggr)
      = unat (correctly_classified aggr) + unat (wrongly_classified aggr)"
    by (simp add: unat_add_lem [THEN iffD1])
  have "(of_nat (unat (correctly_classified aggr) + unat (wrongly_classified aggr)) :: rat)
      = of_nat (unat (correctly_classified aggr)) + of_nat (unat (wrongly_classified aggr))"
    by (rule of_nat_add)
  then have "spec_cls_ratio aggr
      = of_nat (unat (correctly_classified aggr))
          / of_nat (unat (correctly_classified aggr + wrongly_classified aggr))"
    unfolding spec_cls_ratio_def s by (simp only:)
  with unat_quotient_close [of "correctly_classified aggr + wrongly_classified aggr"
      "correctly_classified aggr"] a
  show "\<exists>q. cls_ratio aggr = Finite q
           \<and> \<bar>q - spec_cls_ratio aggr\<bar> \<le> spec_cls_ratio aggr / 2 ^ 23"
    unfolding cls_ratio_def by auto
qed

text \<open>
  The witness: of 8 payloads the target accepted 2 and the reduced automaton 3; 1 is
  wrongly classified and 7 are correctly classified. Eighths have no rounding error.
\<close>

theorem derived_metrics_witness:
  "pe \<lparr>total = 8, accepted_target = 2, accepted_reduced = 3,
       wrongly_classified = 1, correctly_classified = 7\<rparr> = Finite (1 / 8)
   \<and> ce \<lparr>total = 8, accepted_target = 2, accepted_reduced = 3,
       wrongly_classified = 1, correctly_classified = 7\<rparr> = Finite (1 / 8)
   \<and> cls_ratio \<lparr>total = 8, accepted_target = 2, accepted_reduced = 3,
       wrongly_classified = 1, correctly_classified = 7\<rparr> = Finite (7 / 8)"
proof -
  let ?a = "\<lparr>total = 8, accepted_target = 2, accepted_reduced = 3,
       wrongly_classified = 1, correctly_classified = 7\<rparr>"
  have "pe ?a = Finite (1 / 8)" "ce ?a = Finite (1 / 8)" "cls_ratio ?a = Finite (7 / 8)"
    by (simp_all add: pe_def ce_def cls_ratio_def wrong_acceptances_def fl_eval)
  with derived_metrics [of ?a] show ?thesis
    by blast
qed

subsection \<open>The difference of the accepted counts\<close>

lemma wrap_quotient:
  assumes "r < t" and "t < 2 ^ 64" and "0 < n"
  shows "(of_nat (2 ^ 64 - (t - r)) :: rat) / of_nat n
           = (of_nat r - of_nat t) / of_nat n + 2 ^ 64 / of_nat n"
    and "(of_nat r - of_nat t) / of_nat n < (0 :: rat)"
    and "(0 :: rat) < (of_nat r - of_nat t) / of_nat n + 2 ^ 64 / of_nat n"
proof -
  from assms have e: "(of_nat (2 ^ 64 - (t - r)) :: rat) = of_nat r - of_nat t + 2 ^ 64"
    by (simp add: of_nat_diff)
  from assms have pos: "(0 :: rat) < of_nat r - of_nat t + 2 ^ 64"
    unfolding e [symmetric] by (simp del: of_nat_diff)
  show "(of_nat (2 ^ 64 - (t - r)) :: rat) / of_nat n
           = (of_nat r - of_nat t) / of_nat n + 2 ^ 64 / of_nat n"
    unfolding e by (simp add: add_divide_distrib)
  from assms show "(of_nat r - of_nat t) / of_nat n < (0 :: rat)"
    by (simp add: divide_neg_pos)
  from pos assms have "(0 :: rat) < (of_nat r - of_nat t + 2 ^ 64) / of_nat n"
    by (simp add: zero_less_divide_iff)
  then show "(0 :: rat) < (of_nat r - of_nat t) / of_nat n + 2 ^ 64 / of_nat n"
    by (simp add: add_divide_distrib)
qed

lemma close_positive:
  fixes q s :: rat
  assumes "\<bar>q - s\<bar> \<le> s / 2 ^ 23" and "0 < s"
  shows "0 < q"
proof -
  from assms(1) have "s - s / 2 ^ 23 \<le> q"
    by (rule rel_bounds)
  moreover from assms(2) have "0 < s - s / 2 ^ 23"
    by simp
  ultimately show ?thesis
    by simp
qed

text \<open>
  C6. \<open>wrong_acceptances\<close> is a difference of \<^verbatim>\<open>size_t\<close>. Whenever the target
  automaton accepted more payloads than the reduced one, it is not the negative
  difference \<open>r - t\<close> of the two counts but \<open>2 ^ 64 - (t - r)\<close>, a positive number that
  is at least \<open>2 ^ 64 - t\<close>, and \<open>pe\<close> is the \<^verbatim>\<open>float\<close> of that number over the total. For a run with at least
  one payload the quotient of the spec is negative, and \<open>pe\<close> is positive: it is, up
  to the fraction \<open>1 / 2 ^ 23\<close> of rounding error, that quotient plus \<open>2 ^ 64 / total\<close>.
\<close>

theorem wrong_acceptances_wraps:
  assumes "accepted_reduced aggr < accepted_target aggr"
  shows "unat (wrong_acceptances aggr)
           = 2 ^ 64 - (unat (accepted_target aggr) - unat (accepted_reduced aggr))
       \<and> 0 < unat (wrong_acceptances aggr)
       \<and> 2 ^ 64 - unat (accepted_target aggr) \<le> unat (wrong_acceptances aggr)
       \<and> pe aggr = fdiv (2 ^ 64 - (unat (accepted_target aggr) - unat (accepted_reduced aggr)))
                     (unat (total aggr))
       \<and> (total aggr \<noteq> 0 \<longrightarrow>
            (\<exists>q. pe aggr = Finite q \<and> 0 < q
               \<and> \<bar>q - (spec_pe aggr + 2 ^ 64 / of_nat (unat (total aggr)))\<bar>
                   \<le> (spec_pe aggr + 2 ^ 64 / of_nat (unat (total aggr))) / 2 ^ 23)
            \<and> spec_pe aggr < 0
            \<and> 0 < spec_pe aggr + 2 ^ 64 / of_nat (unat (total aggr)))"
proof -
  let ?r = "unat (accepted_reduced aggr)" and ?t = "unat (accepted_target aggr)"
  let ?n = "unat (total aggr)"
  from assms have lt: "?r < ?t"
    by (simp add: word_less_nat_alt)
  have bt: "?t < 2 ^ 64"
    using unsigned_less [of "accepted_target aggr", where 'a = nat] by simp
  from lt have w: "unat (wrong_acceptances aggr) = 2 ^ 64 - (?t - ?r)"
    using bt by (simp add: wrong_acceptances_def unat_sub_if')
  from lt bt have pos: "0 < (2 :: nat) ^ 64 - (?t - ?r)"
    by simp
  have p: "pe aggr = fdiv (2 ^ 64 - (?t - ?r)) ?n"
    by (simp add: pe_def w)
  have fin: "(\<exists>q. pe aggr = Finite q \<and> 0 < q
               \<and> \<bar>q - (spec_pe aggr + 2 ^ 64 / of_nat ?n)\<bar>
                   \<le> (spec_pe aggr + 2 ^ 64 / of_nat ?n) / 2 ^ 23)
            \<and> spec_pe aggr < 0
            \<and> 0 < spec_pe aggr + 2 ^ 64 / of_nat ?n" if "total aggr \<noteq> 0"
  proof -
    from that have n: "0 < ?n"
      by (simp add: unat_gt_0)
    note wq = wrap_quotient [OF lt bt n]
    from fdiv_close [OF n, of "2 ^ 64 - (?t - ?r)"] obtain q where
      q: "fdiv (2 ^ 64 - (?t - ?r)) ?n = Finite q" and
      c: "\<bar>q - of_nat (2 ^ 64 - (?t - ?r)) / of_nat ?n\<bar>
            \<le> of_nat (2 ^ 64 - (?t - ?r)) / of_nat ?n / 2 ^ 23"
      by blast
    from c have c': "\<bar>q - ((of_nat ?r - of_nat ?t) / of_nat ?n + 2 ^ 64 / of_nat ?n)\<bar>
            \<le> ((of_nat ?r - of_nat ?t) / of_nat ?n + 2 ^ 64 / of_nat ?n) / 2 ^ 23"
      unfolding wq(1) .
    from close_positive [OF c' wq(3)] have "0 < q" .
    with q c' wq(2,3) show ?thesis
      unfolding p spec_pe_def by blast
  qed
  from w have big: "2 ^ 64 - ?t \<le> unat (wrong_acceptances aggr)"
    by simp
  from w pos p fin big show ?thesis
    by simp
qed

text \<open>
  The witness: of 4 payloads the target accepted 3 and the reduced automaton 1; the
  code reports \<open>2 ^ 62\<close>, the \<^verbatim>\<open>float\<close> nearest to \<open>(2 ^ 64 - 2) / 4\<close>.
\<close>

theorem wrong_acceptances_wraps_witness:
  "pe \<lparr>total = 4, accepted_target = 3, accepted_reduced = 1,
       wrongly_classified = 2, correctly_classified = 2\<rparr> = Finite (2 ^ 62)"
proof -
  let ?a = "\<lparr>total = 4, accepted_target = 3, accepted_reduced = 1,
       wrongly_classified = 2, correctly_classified = 2\<rparr>"
  have "accepted_reduced ?a < accepted_target ?a"
    by simp
  from wrong_acceptances_wraps [OF this]
  have "pe ?a = fdiv (2 ^ 64 - (unat (accepted_target ?a) - unat (accepted_reduced ?a)))
                     (unat (total ?a))"
    by blast
  then show ?thesis
    by (simp add: fl_eval)
qed

section \<open>The reduction command: \<^verbatim>\<open>main\<close> of reduce.cpp\<close>

text \<open>
  The options \<open>eps\<close> and \<open>pct\<close> are of type \<^verbatim>\<open>float\<close>; \<open>fp_less x y\<close> is the
  comparison \<^verbatim>\<open>x < y\<close> of two such values, false whenever one of them is
  not-a-number.
\<close>

fun fp_less :: "fp \<Rightarrow> fp \<Rightarrow> bool" where
  "fp_less (Finite a) (Finite b) = (a < b)"
| "fp_less (Finite a) PosInf = True"
| "fp_less NegInf (Finite b) = True"
| "fp_less NegInf PosInf = True"
| "fp_less x y = False"

text \<open>
  The exceptions that \<^verbatim>\<open>main\<close> catches, each with what its message is made of.
  \<open>StodFailed\<close> is an exception of \<^verbatim>\<open>stod\<close>; the failures of the functions that
  \<^verbatim>\<open>main\<close> calls on files have one constructor each.
\<close>

datatype runtime_error =
    InvalidFloat fp fp fp
  | StodFailed
  | InvalidPositional
  | NfaReadFailed
  | CannotOpenOutput
  | PcapOpenFailed
  | LabelsFailed
  | InvalidReductionType string

definition check_float :: "fp \<Rightarrow> fp \<Rightarrow> fp \<Rightarrow> runtime_error + unit" where
  "check_float x max_val min_val =
     (if fp_less max_val x \<or> fp_less x min_val then Inl (InvalidFloat x min_val max_val)
      else Inr ())"

text \<open>
  What \<^verbatim>\<open>getopt(argc, argv, "ho:fe:p:t:")\<close> returns, call after call, until it
  returns \<open>-1\<close>: an option with its argument. For \<open>-e\<close> and \<open>-p\<close> the argument is
  given as the value \<^verbatim>\<open>stod(optarg)\<close> converted to \<^verbatim>\<open>float\<close>, or \<open>None\<close> when
  \<^verbatim>\<open>stod\<close> throws. \<open>Opt_unknown\<close> is any other return value of \<^verbatim>\<open>getopt\<close>.
\<close>

datatype cli_option =
    Opt_h | Opt_o string | Opt_f | Opt_e "fp option" | Opt_p "fp option" | Opt_t string
  | Opt_unknown

record options =
  freq_opt :: bool
  eps :: fp
  pct :: fp
  outfile :: string
  red_type :: string
  opt_cnt :: int

text \<open>
  What a run of \<^verbatim>\<open>main\<close> comes to: \<open>Return n\<close> for a \<^verbatim>\<open>return n\<close> before any work,
  \<open>Caught e\<close> for an exception caught at the end of \<^verbatim>\<open>main\<close> (a message and
  \<^verbatim>\<open>return 1\<close>), \<open>Frequencies\<close> for the computation of the state frequencies,
  \<open>Prune pct eps\<close> for the call \<^verbatim>\<open>prune(nfa, labels, pct, eps)\<close> and
  \<open>Merge_and_prune pct\<close> for the call \<^verbatim>\<open>merge_and_prune(nfa, labels, pct)\<close>.
\<close>

datatype run =
    Return int
  | Caught runtime_error
  | Frequencies
  | Prune fp fp
  | Merge_and_prune fp

fun getopt_loop :: "options \<Rightarrow> cli_option list \<Rightarrow> run + options" where
  "getopt_loop st [] = Inr st"
| "getopt_loop st (c # cs) =
     (let st = st\<lparr>opt_cnt := opt_cnt st + 1\<rparr> in
      case c of
        Opt_h \<Rightarrow> Inl (Return 0)
      | Opt_o optarg \<Rightarrow> getopt_loop (st\<lparr>outfile := optarg, opt_cnt := opt_cnt st + 1\<rparr>) cs
      | Opt_f \<Rightarrow> getopt_loop (st\<lparr>freq_opt := True\<rparr>) cs
      | Opt_e v \<Rightarrow>
          (case v of
             None \<Rightarrow> Inl (Caught StodFailed)
           | Some x \<Rightarrow>
               (case check_float x (Finite 1) (Finite 0) of
                  Inl e \<Rightarrow> Inl (Caught e)
                | Inr u \<Rightarrow> getopt_loop (st\<lparr>opt_cnt := opt_cnt st + 1, eps := x\<rparr>) cs))
      | Opt_p v \<Rightarrow>
          (case v of
             None \<Rightarrow> Inl (Caught StodFailed)
           | Some x \<Rightarrow>
               (case check_float x (Finite 1) (Finite 0) of
                  Inl e \<Rightarrow> Inl (Caught e)
                | Inr u \<Rightarrow> getopt_loop (st\<lparr>opt_cnt := opt_cnt st + 1, pct := x\<rparr>) cs))
      | Opt_t optarg \<Rightarrow> getopt_loop (st\<lparr>opt_cnt := opt_cnt st + 1, red_type := optarg\<rparr>) cs
      | Opt_unknown \<Rightarrow> Inl (Return 1))"

text \<open>
  What \<^verbatim>\<open>main\<close> finds outside: whether the automaton can be read, the output file
  opened, the capture file opened, the label file read. These functions are not part
  of reduce.cpp.
\<close>

record environment =
  nfa_readable :: bool
  output_opens :: bool
  pcap_opens :: bool
  labels_readable :: bool

definition initial_options :: options where
  "initial_options =
     \<lparr>freq_opt = False, eps = Finite (- 1), pct = Finite (- 1),
      outfile = ''reduced-nfa.fa'', red_type = ''prune'', opt_cnt = 1\<rparr>"

definition main :: "int \<Rightarrow> cli_option list \<Rightarrow> environment \<Rightarrow> run" where
  "main argc opts env =
     (if argc < 2 then Return 1
      else
        case getopt_loop initial_options opts of
          Inl r \<Rightarrow> r
        | Inr st \<Rightarrow>
            if argc - opt_cnt st < 2 then Caught InvalidPositional
            else if \<not> nfa_readable env then Caught NfaReadFailed
            else if \<not> output_opens env then Caught CannotOpenOutput
            else if freq_opt st then
              (if pcap_opens env then Frequencies else Caught PcapOpenFailed)
            else if \<not> labels_readable env then Caught LabelsFailed
            else if red_type st = ''prune'' then Prune (pct st) (eps st)
            else if red_type st = ''merge'' then Merge_and_prune (pct st)
            else Caught (InvalidReductionType (red_type st)))"

subsection \<open>The values that reach a reduction\<close>

definition default_or_in_range :: "fp \<Rightarrow> bool" where
  "default_or_in_range x =
     (x = Finite (- 1) \<or> x = NaN \<or> (\<exists>q. x = Finite q \<and> 0 \<le> q \<and> q \<le> 1))"

definition out_of_range :: "fp \<Rightarrow> bool" where
  "out_of_range x = (fp_less (Finite 1) x \<or> fp_less x (Finite 0))"

lemma check_float_Inr:
  "check_float x (Finite 1) (Finite 0) = Inr u \<Longrightarrow> default_or_in_range x \<and> \<not> out_of_range x"
  by (cases x) (auto simp: check_float_def default_or_in_range_def out_of_range_def split: if_splits)

lemma getopt_loop_values:
  assumes "getopt_loop st opts = Inr st'"
    and "default_or_in_range (pct st)" and "default_or_in_range (eps st)"
  shows "default_or_in_range (pct st') \<and> default_or_in_range (eps st')
       \<and> (\<forall>x. Opt_p (Some x) \<in> set opts \<or> Opt_e (Some x) \<in> set opts \<longrightarrow> \<not> out_of_range x)"
  using assms
proof (induction opts arbitrary: st)
  case Nil
  then show ?case by simp
next
  case (Cons c cs)
  show ?case
  proof (cases c)
    case (Opt_e v)
    with Cons.prems obtain x where v: "v = Some x"
      and ck: "check_float x (Finite 1) (Finite 0) = Inr ()"
      and rest: "getopt_loop (st\<lparr>opt_cnt := opt_cnt st + 1 + 1, eps := x\<rparr>) cs = Inr st'"
      by (auto simp: Let_def split: option.splits sum.splits)
    from check_float_Inr [OF ck] Cons.IH [OF rest] Cons.prems(2) Opt_e v show ?thesis
      by auto
  next
    case (Opt_p v)
    with Cons.prems obtain x where v: "v = Some x"
      and ck: "check_float x (Finite 1) (Finite 0) = Inr ()"
      and rest: "getopt_loop (st\<lparr>opt_cnt := opt_cnt st + 1 + 1, pct := x\<rparr>) cs = Inr st'"
      by (auto simp: Let_def split: option.splits sum.splits)
    from check_float_Inr [OF ck] Cons.IH [OF rest] Cons.prems(3) Opt_p v show ?thesis
      by auto
  next
    case Opt_h
    with Cons.prems show ?thesis by (simp add: Let_def)
  next
    case (Opt_o f)
    with Cons.prems Cons.IH [of "st\<lparr>opt_cnt := opt_cnt st + 1, outfile := f, opt_cnt := opt_cnt st + 1 + 1\<rparr>"]
    show ?thesis by (auto simp: Let_def)
  next
    case Opt_f
    with Cons.prems Cons.IH [of "st\<lparr>opt_cnt := opt_cnt st + 1, freq_opt := True\<rparr>"]
    show ?thesis by (auto simp: Let_def)
  next
    case (Opt_t t)
    with Cons.prems Cons.IH [of "st\<lparr>opt_cnt := opt_cnt st + 1 + 1, red_type := t\<rparr>"]
    show ?thesis by (auto simp: Let_def)
  next
    case Opt_unknown
    with Cons.prems show ?thesis by (simp add: Let_def)
  qed
qed

text \<open>
  C7, as stated, fails: \<open>check_float\<close> is called on the argument of an option that
  is given, and an option that is not given keeps its initial value \<open>- 1\<close>. The
  command with no option and two file names calls \<^verbatim>\<open>prune\<close> with \<open>pct = - 1\<close> and
  \<open>eps = - 1\<close>.
\<close>

theorem main_runs_unvalidated_defaults:
  "main 3 [] \<lparr>nfa_readable = True, output_opens = True, pcap_opens = True, labels_readable = True\<rparr>
     = Prune (Finite (- 1)) (Finite (- 1))"
  by (simp add: main_def initial_options_def)

lemma getopt_loop_stops:
  "getopt_loop st opts = Inl r \<Longrightarrow> (\<exists>n. r = Return n) \<or> (\<exists>e. r = Caught e)"
proof (induction opts arbitrary: st)
  case Nil
  then show ?case by simp
next
  case (Cons c cs)
  then show ?case
    by (cases c) (auto simp: Let_def split: option.splits sum.splits)
qed

text \<open>
  C7, amended. A value given with \<open>-p\<close> or \<open>-e\<close> that is greater than 1 or less than
  0 ends the command (with the failure of \<open>check_float\<close>, or with an earlier exit)
  before any reduction. So \<^verbatim>\<open>prune\<close> and \<^verbatim>\<open>merge_and_prune\<close> are called with a
  \<open>pct\<close>, and \<^verbatim>\<open>prune\<close> with an \<open>eps\<close>, that is the initial value \<open>- 1\<close> of an
  option not given, or a number from 0 to 1, or not-a-number (which no comparison
  rejects).
\<close>

theorem reduction_arguments:
  "(\<forall>p e. main argc opts env = Prune p e \<longrightarrow> default_or_in_range p \<and> default_or_in_range e)
   \<and> (\<forall>p. main argc opts env = Merge_and_prune p \<longrightarrow> default_or_in_range p)
   \<and> (\<forall>x. (Opt_p (Some x) \<in> set opts \<or> Opt_e (Some x) \<in> set opts) \<and> out_of_range x \<longrightarrow>
         (\<exists>n. main argc opts env = Return n) \<or> (\<exists>e. main argc opts env = Caught e))"
proof (cases "getopt_loop initial_options opts")
  case (Inl r)
  from getopt_loop_stops [OF Inl] have "(\<exists>n. r = Return n) \<or> (\<exists>e. r = Caught e)" .
  with Inl show ?thesis
    by (auto simp: main_def)
next
  case (Inr st)
  have "default_or_in_range (pct initial_options)" "default_or_in_range (eps initial_options)"
    by (simp_all add: initial_options_def default_or_in_range_def)
  from getopt_loop_values [OF Inr this]
  have v: "default_or_in_range (pct st)" "default_or_in_range (eps st)"
    "\<forall>x. Opt_p (Some x) \<in> set opts \<or> Opt_e (Some x) \<in> set opts \<longrightarrow> \<not> out_of_range x"
    by simp_all
  from Inr v(1,2)
  have "\<forall>p e. main argc opts env = Prune p e \<longrightarrow> default_or_in_range p \<and> default_or_in_range e"
    by (auto simp: main_def split: if_splits)
  moreover from Inr v(1)
  have "\<forall>p. main argc opts env = Merge_and_prune p \<longrightarrow> default_or_in_range p"
    by (auto simp: main_def split: if_splits)
  ultimately show ?thesis
    using v(3) by blast
qed

text \<open>
  The witness: \<open>-p 0.5 -e 0.1\<close> with two file names reaches \<^verbatim>\<open>prune\<close>; \<open>-p 2\<close> is
  rejected.
\<close>

theorem reduction_arguments_witness:
  "main 7 [Opt_p (Some (Finite (1 / 2))), Opt_e (Some (Finite (1 / 10)))]
      \<lparr>nfa_readable = True, output_opens = True, pcap_opens = True, labels_readable = True\<rparr>
     = Prune (Finite (1 / 2)) (Finite (1 / 10))
   \<and> main 5 [Opt_p (Some (Finite 2))]
      \<lparr>nfa_readable = True, output_opens = True, pcap_opens = True, labels_readable = True\<rparr>
     = Caught (InvalidFloat (Finite 2) (Finite 0) (Finite 1))"
  using
    reduction_arguments [of 7 "[Opt_p (Some (Finite (1 / 2))), Opt_e (Some (Finite (1 / 10)))]"
      "\<lparr>nfa_readable = True, output_opens = True, pcap_opens = True, labels_readable = True\<rparr>"]
    reduction_arguments [of 5 "[Opt_p (Some (Finite 2))]"
      "\<lparr>nfa_readable = True, output_opens = True, pcap_opens = True, labels_readable = True\<rparr>"]
  by (simp add: main_def initial_options_def check_float_def Let_def)

section \<open>The label file: \<^verbatim>\<open>read_state_labels\<close> of reduce.cpp\<close>

text \<open>
  The file is given as the list of its lines, as \<^verbatim>\<open>getline\<close> yields them, or \<open>None\<close>
  when it cannot be opened. Of the automaton (\<^verbatim>\<open>Nfa\<close>, declared in nfa.hpp, which is
  not among the verified sources) the function uses \<^verbatim>\<open>is_state\<close> only, a parameter of
  the model. \<^verbatim>\<open>State\<close> is taken to be \<^verbatim>\<open>unsigned long\<close>, as the label is.

  \<^verbatim>\<open>iss >> s >> l\<close> extracts two numbers of type \<^verbatim>\<open>unsigned long\<close> with the
  operator of the standard library: white space is skipped, a sign may come first, the
  decimal digits that follow are the value; the extraction fails when there is no digit
  or the value does not fit 64 bits; a value after \<open>-\<close> is negated modulo \<open>2 ^ 64\<close>.
  \<open>extract_ulong\<close> returns the number and the rest of the line.
\<close>

definition isspace :: "char \<Rightarrow> bool" where
  "isspace c = (of_char c \<in> {32, 9, 10, 11, 12, 13 :: nat})"

definition isdigit :: "char \<Rightarrow> bool" where
  "isdigit c = (48 \<le> (of_char c :: nat) \<and> (of_char c :: nat) \<le> 57)"

definition digits_value :: "string \<Rightarrow> nat" where
  "digits_value ds = foldl (\<lambda>v c. 10 * v + (of_char c - 48)) 0 ds"

definition extract_ulong :: "string \<Rightarrow> (nat \<times> string) option" where
  "extract_ulong s =
     (let s1 = dropWhile isspace s;
          negative = (s1 \<noteq> [] \<and> hd s1 = CHR ''-'');
          s2 = (if s1 \<noteq> [] \<and> (hd s1 = CHR ''-'' \<or> hd s1 = CHR ''+'') then tl s1 else s1);
          ds = takeWhile isdigit s2;
          v = digits_value ds
      in if ds = [] \<or> 2 ^ 64 \<le> v then None
         else Some (if negative then (2 ^ 64 - v) mod 2 ^ 64 else v, dropWhile isdigit s2))"

definition extract_state_label :: "string \<Rightarrow> (State \<times> nat) option" where
  "extract_state_label buf =
     (case extract_ulong buf of
        None \<Rightarrow> None
      | Some (s, rest) \<Rightarrow>
          (case extract_ulong rest of
             None \<Rightarrow> None
           | Some (l, rest') \<Rightarrow> Some (s, l)))"

text \<open>
  The three exceptions, with the messages \<^verbatim>\<open>error loading NFA\<close>,
  \<^verbatim>\<open>invalid state labels syntax\<close> and \<^verbatim>\<open>invalid NFA state: \<close> followed by the state.
\<close>

datatype label_error = ErrorLoadingNFA | InvalidSyntax | InvalidState State

text \<open>\<^verbatim>\<open>buf.substr(0, buf.find("#"))\<close>: the line up to its first \<open>#\<close>, or all of it.\<close>

definition remove_comment :: "string \<Rightarrow> string" where
  "remove_comment buf = takeWhile (\<lambda>c. c \<noteq> CHR ''#'') buf"

text \<open>The \<^verbatim>\<open>while (getline(in, buf))\<close> loop, with the map \<open>ret\<close> built so far.\<close>

fun read_lines :: "(State \<Rightarrow> bool) \<Rightarrow> (State \<rightharpoonup> nat) \<Rightarrow> string list
     \<Rightarrow> label_error + (State \<rightharpoonup> nat)" where
  "read_lines is_state ret [] = Inr ret"
| "read_lines is_state ret (line # rest) =
     (let buf = remove_comment line in
      if buf = [] then read_lines is_state ret rest
      else
        case extract_state_label buf of
          None \<Rightarrow> Inl InvalidSyntax
        | Some (s, l) \<Rightarrow>
            if \<not> is_state s then Inl (InvalidState s)
            else read_lines is_state (ret(s \<mapsto> l)) rest)"

definition read_state_labels :: "(State \<Rightarrow> bool) \<Rightarrow> string list option
     \<Rightarrow> label_error + (State \<rightharpoonup> nat)" where
  "read_state_labels is_state file =
     (case file of
        None \<Rightarrow> Inl ErrorLoadingNFA
      | Some lines \<Rightarrow> read_lines is_state Map.empty lines)"

subsection \<open>What the function returns\<close>

text \<open>
  For the statement: the lines that are not ignored (without their comments), what it
  means for such a line to be accepted, and the pairs that the accepted lines list.
\<close>

definition kept_lines :: "string list \<Rightarrow> string list" where
  "kept_lines lines = filter (\<lambda>buf. buf \<noteq> []) (map remove_comment lines)"

definition well_formed :: "(State \<Rightarrow> bool) \<Rightarrow> string \<Rightarrow> bool" where
  "well_formed is_state buf =
     (case extract_state_label buf of None \<Rightarrow> False | Some (s, l) \<Rightarrow> is_state s)"

definition listed :: "string list \<Rightarrow> (State \<times> nat) list" where
  "listed lines = List.map_filter extract_state_label (kept_lines lines)"

lemma kept_lines_Cons:
  "kept_lines (line # rest) =
     (if remove_comment line = [] then kept_lines rest
      else remove_comment line # kept_lines rest)"
  by (simp add: kept_lines_def)

lemma listed_Cons:
  "listed (line # rest) =
     (if remove_comment line = [] then listed rest
      else case extract_state_label (remove_comment line) of
             None \<Rightarrow> listed rest
           | Some p \<Rightarrow> p # listed rest)"
  by (simp add: listed_def kept_lines_Cons split: option.split)

lemma upd_map_add: "ret(s \<mapsto> l) ++ m = ret ++ (map_of [(s, l)] ++ m)"
  by (rule ext) (simp add: map_add_def split: option.splits)

lemma read_lines_ok:
  "list_all (well_formed is_state) (kept_lines lines) \<Longrightarrow>
     read_lines is_state ret lines = Inr (ret ++ map_of (rev (listed lines)))"
proof (induction lines arbitrary: ret)
  case Nil
  then show ?case by (simp add: listed_def kept_lines_def)
next
  case (Cons line rest)
  show ?case
  proof (cases "remove_comment line = []")
    case True
    with Cons show ?thesis
      by (simp add: listed_Cons kept_lines_Cons)
  next
    case False
    with Cons.prems have w: "well_formed is_state (remove_comment line)"
      and r: "list_all (well_formed is_state) (kept_lines rest)"
      by (simp_all add: kept_lines_Cons)
    from w obtain s l where
      e: "extract_state_label (remove_comment line) = Some (s, l)" and st: "is_state s"
      by (auto simp: well_formed_def split: option.splits)
    from False e have li: "listed (line # rest) = (s, l) # listed rest"
      by (simp add: listed_Cons)
    have "read_lines is_state ret (line # rest) = read_lines is_state (ret(s \<mapsto> l)) rest"
      using False e st by simp
    also have "\<dots> = Inr (ret(s \<mapsto> l) ++ map_of (rev (listed rest)))"
      by (rule Cons.IH [OF r])
    also have "ret(s \<mapsto> l) ++ map_of (rev (listed rest))
        = ret ++ map_of (rev (listed (line # rest)))"
      unfolding li upd_map_add by simp
    finally show ?thesis .
  qed
qed

lemma read_lines_fail:
  "\<not> list_all (well_formed is_state) (kept_lines lines) \<Longrightarrow>
     read_lines is_state ret lines = Inl InvalidSyntax
     \<or> (\<exists>s. read_lines is_state ret lines = Inl (InvalidState s) \<and> \<not> is_state s)"
proof (induction lines arbitrary: ret)
  case Nil
  then show ?case by (simp add: kept_lines_def)
next
  case (Cons line rest)
  show ?case
  proof (cases "remove_comment line = []")
    case True
    with Cons show ?thesis
      by (simp add: kept_lines_Cons)
  next
    case False
    show ?thesis
    proof (cases "extract_state_label (remove_comment line)")
      case None
      with False show ?thesis by simp
    next
      case (Some p)
      obtain s l where p: "p = (s, l)" by (cases p)
      show ?thesis
      proof (cases "is_state s")
        case True
        with Some p have "well_formed is_state (remove_comment line)"
          by (simp add: well_formed_def)
        with Cons.prems False
        have r: "\<not> list_all (well_formed is_state) (kept_lines rest)"
          by (simp add: kept_lines_Cons)
        have e: "read_lines is_state ret (line # rest)
            = read_lines is_state (ret(s \<mapsto> l)) rest"
          using False Some p True by simp
        show ?thesis
          unfolding e by (rule Cons.IH [OF r])
      next
        case ns: False
        with False Some p show ?thesis by simp
      qed
    qed
  qed
qed

lemma remove_comment_idem: "remove_comment (remove_comment line) = remove_comment line"
  by (simp add: remove_comment_def)

lemma read_lines_kept:
  "read_lines is_state ret (kept_lines lines) = read_lines is_state ret lines"
proof (induction lines arbitrary: ret)
  case Nil
  then show ?case by (simp add: kept_lines_def)
next
  case (Cons line rest)
  show ?case
  proof (cases "remove_comment line = []")
    case True
    with Cons show ?thesis
      by (simp add: kept_lines_Cons)
  next
    case False
    show ?thesis
    proof (cases "extract_state_label (remove_comment line)")
      case None
      with False show ?thesis
        by (simp add: kept_lines_Cons remove_comment_idem)
    next
      case (Some p)
      obtain s l where p: "p = (s, l)" by (cases p)
      have e1: "read_lines is_state ret (kept_lines (line # rest))
          = (if is_state s then read_lines is_state (ret(s \<mapsto> l)) (kept_lines rest)
             else Inl (InvalidState s))"
        using False Some p by (simp add: kept_lines_Cons remove_comment_idem)
      have e2: "read_lines is_state ret (line # rest)
          = (if is_state s then read_lines is_state (ret(s \<mapsto> l)) rest
             else Inl (InvalidState s))"
        using False Some p by simp
      show ?thesis
        unfolding e1 e2 by (simp only: Cons.IH)
    qed
  qed
qed

lemmas label_eval =
  read_state_labels_def remove_comment_def extract_state_label_def extract_ulong_def
  digits_value_def isspace_def isdigit_def Let_def

text \<open>
  C8, as stated, fails for blank lines that are not empty: the only lines ignored are
  those of which nothing is left when the comment is removed. A line of blanks, a line
  holding a tab, and a comment line that starts with blanks are not ignored; they do
  not parse, and the whole file is rejected. An empty line is ignored.
\<close>

theorem white_space_line_not_ignored:
  "read_state_labels (\<lambda>s. s < 2) (Some [''0 10'', ''  '', ''1 25'']) = Inl InvalidSyntax
   \<and> read_state_labels (\<lambda>s. s < 2) (Some [''0 10'', [CHR 0x09], ''1 25'']) = Inl InvalidSyntax
   \<and> read_state_labels (\<lambda>s. s < 2) (Some [''0 10'', ''  # comment'', ''1 25''])
       = Inl InvalidSyntax
   \<and> read_state_labels (\<lambda>s. s < 2) (Some [''0 10'', [], ''1 25''])
       = read_state_labels (\<lambda>s. s < 2) (Some [''0 10'', ''1 25''])"
  by (simp add: label_eval)

text \<open>
  C8, amended. A file that cannot be opened is an error. Otherwise the text from a
  \<open>#\<close> to the end of its line is dropped, and the lines that are empty then are
  ignored: the file gives what its other lines, without their comments, give. A line
  that holds white space only is not empty. If every line that is not ignored parses
  as a state and a value and its state is a state of the automaton, the result is the
  map of the listed pairs, a later line for a state replacing an earlier one. If not,
  the result is the syntax error or the error of a state that is not a state of the
  automaton, and no map.
\<close>

theorem read_state_labels_result:
  "read_state_labels is_state None = Inl ErrorLoadingNFA
   \<and> read_state_labels is_state (Some (kept_lines lines))
       = read_state_labels is_state (Some lines)
   \<and> (list_all (well_formed is_state) (kept_lines lines) \<longrightarrow>
        read_state_labels is_state (Some lines) = Inr (map_of (rev (listed lines))))
   \<and> (\<not> list_all (well_formed is_state) (kept_lines lines) \<longrightarrow>
        read_state_labels is_state (Some lines) = Inl InvalidSyntax
        \<or> (\<exists>s. read_state_labels is_state (Some lines) = Inl (InvalidState s)
               \<and> \<not> is_state s))"
  using read_lines_ok [of is_state lines Map.empty] read_lines_fail [of is_state lines Map.empty]
    read_lines_kept [of is_state Map.empty lines]
  by (simp add: read_state_labels_def)

text \<open>
  The witness: an automaton with the states 0 and 1; a file with a comment line, an
  empty line and three entries; a file naming state 2; a file with a line that has no
  value; and a file with a comment line that starts with two blanks.
\<close>

theorem read_state_labels_result_witness:
  "list_all (well_formed (\<lambda>s. s < 2))
     (kept_lines [''# labels'', [], ''0 10'', ''1 25 # hot'', ''0 11''])
   \<and> read_state_labels (\<lambda>s. s < 2)
       (Some [''# labels'', [], ''0 10'', ''1 25 # hot'', ''0 11''])
     = Inr (map_of [(0, 11), (1, 25), (0, 10)])
   \<and> read_state_labels (\<lambda>s. s < 2) (Some [''0 10'', ''2 5'']) = Inl (InvalidState 2)
   \<and> read_state_labels (\<lambda>s. s < 2) (Some [''0 10'', ''1'']) = Inl InvalidSyntax
   \<and> read_state_labels (\<lambda>s. s < 2) (Some [''0 10'', ''  # 1 2'']) = Inl InvalidSyntax"
proof -
  let ?L = "[''# labels'', [], ''0 10'', ''1 25 # hot'', ''0 11'']"
  have k: "list_all (well_formed (\<lambda>s. s < 2)) (kept_lines ?L)"
    by (simp add: kept_lines_def well_formed_def label_eval)
  have l: "listed ?L = [(0, 10), (1, 25), (0, 11)]"
    by (simp add: listed_def kept_lines_def List.map_filter_simps label_eval)
  from read_state_labels_result [of "\<lambda>s. s < 2" ?L] k
  have "read_state_labels (\<lambda>s. s < 2) (Some ?L) = Inr (map_of (rev (listed ?L)))"
    by blast
  then have "read_state_labels (\<lambda>s. s < 2) (Some ?L) = Inr (map_of [(0, 11), (1, 25), (0, 10)])"
    unfolding l by simp
  moreover have "read_state_labels (\<lambda>s. s < 2) (Some [''0 10'', ''2 5'']) = Inl (InvalidState 2)"
    by (simp add: label_eval)
  moreover have "read_state_labels (\<lambda>s. s < 2) (Some [''0 10'', ''1'']) = Inl InvalidSyntax"
    by (simp add: label_eval)
  moreover have "read_state_labels (\<lambda>s. s < 2) (Some [''0 10'', ''  # 1 2'']) = Inl InvalidSyntax"
    by (simp add: label_eval)
  ultimately show ?thesis
    using k by blast
qed

end
